theory Spec2Isabelle
  imports Main
begin

section \<open>Data model of the operation history tree (action\_manager.py)\<close>

text \<open>
  The Python objects are mutable and shared: a node is referenced from its parent's
  \<open>children\<close> or \<open>invalid_ops\<close> list, from the \<open>parent\<close> field of its children, and from
  the manager's \<open>current\<close> and \<open>_temp_node\<close>. The model therefore keeps every node in an
  explicit store and represents an object reference by its address (a natural number).
  Python's \<open>is\<close> is equality of addresses. \<open>==\<close> between two nodes, and with it
  \<open>x in chain\<close>, is the field-wise equality of the dataclass, which follows the references
  of the two nodes (\<open>node_eq\<close> and \<open>node_in\<close> below).
\<close>

type_synonym ref = nat

datatype ActionProperty = EXPLOITATIVE | EXPLORATORY

datatype ActionObservation = ActionObservation (obs_action: string) (observation: string)

record CodeChunk =
  file_path :: string
  class_name :: string
  function_name :: string
  whole_function :: bool
  lines :: "int list"
  eof :: bool

record OperationNode =
  thoughts :: string
  action :: string
  action_property :: "ActionProperty option"
  observations :: "ActionObservation list"
  summary :: string
  valid :: "bool option"
  lessons :: string
  dead_path_summaries :: "string list"
  code_chunks :: "CodeChunk list"
  tool_status :: "(string \<times> string) list"
  code_change :: string
  dead_path :: bool
  invalid_ops :: "ref list"
  parent :: "ref option"
  children :: "ref list"

text \<open>The dataclass defaults of \<open>OperationNode\<close>, with the three constructor arguments
  that \<open>create_temp_node\<close> passes.\<close>

definition new_node :: "string \<Rightarrow> string \<Rightarrow> ActionProperty option \<Rightarrow> OperationNode" where
  "new_node t a p =
     \<lparr>thoughts = t, action = a, action_property = p, observations = [], summary = [],
      valid = None, lessons = [], dead_path_summaries = [], code_chunks = [],
      tool_status = [], code_change = [], dead_path = False, invalid_ops = [],
      parent = None, children = []\<rparr>"

text \<open>
  The manager. \<open>heap\<close> is the object store and \<open>next_ref\<close> the next unused address
  (object allocation); \<open>sentinel\<close> is the address of \<open>self._sentinel\<close>, which \<open>self.root\<close>
  aliases.
\<close>

record ActionManager =
  heap :: "ref \<Rightarrow> OperationNode"
  sentinel :: ref
  current :: ref
  max_invalid :: int
  all_nodes :: "ref list"
  temp_node :: "ref option"
  next_ref :: ref

definition init :: "int \<Rightarrow> ActionManager" where
  "init m =
     \<lparr>heap = (\<lambda>_. new_node [] [] None), sentinel = 0, current = 0, max_invalid = m,
      all_nodes = [], temp_node = None, next_ref = 1\<rparr>"

definition has_pending_node :: "ActionManager \<Rightarrow> bool" where
  "has_pending_node s = (temp_node s \<noteq> None)"

definition has_real_current :: "ActionManager \<Rightarrow> bool" where
  "has_real_current s = (current s \<noteq> sentinel s)"

definition active_node :: "ActionManager \<Rightarrow> ref option" where
  "active_node s =
     (case temp_node s of
        Some t \<Rightarrow> Some t
      | None \<Rightarrow> (if has_real_current s then Some (current s) else None))"

section \<open>Operations of the tree\<close>

text \<open>Exceptions that the modelled code raises, as values. \<open>Uncaught name\<close> is a
  built-in exception of that class name which no handler of the agent catches.\<close>

datatype error =
    FormatError string
  | ExecutionTimeoutError string
  | Submitted string
  | NotImplementedError
  | Uncaught string

text \<open>
  \<open>create_temp_node\<close> allocates a node, stores it in \<open>_temp_node\<close>, appends it to
  \<open>_all_nodes\<close> and returns it. The body has no \<open>raise\<close>; the result type keeps the
  error alternative so that "the call fails" can be stated.
\<close>

definition create_temp_node ::
    "string \<Rightarrow> string \<Rightarrow> ActionProperty option \<Rightarrow> ActionManager \<Rightarrow> error + (ref \<times> ActionManager)" where
  "create_temp_node t a p s =
     (let node = next_ref s
      in Inr (node,
              s\<lparr>heap := (heap s)(node := new_node t a p),
                temp_node := Some node,
                all_nodes := all_nodes s @ [node],
                next_ref := Suc node\<rparr>))"

definition commit_admissible :: "ActionManager \<Rightarrow> ActionManager" where
  "commit_admissible s =
     (case temp_node s of
        None \<Rightarrow> s
      | Some node \<Rightarrow>
          (let h1 = (heap s)(node := (heap s node)\<lparr>parent := Some (current s)\<rparr>);
               h2 = h1(current s := (h1 (current s))\<lparr>children := children (h1 (current s)) @ [node]\<rparr>)
           in s\<lparr>heap := h2, current := node, temp_node := None\<rparr>))"

definition commit_invalid :: "ActionManager \<Rightarrow> bool \<times> ActionManager" where
  "commit_invalid s =
     (case temp_node s of
        None \<Rightarrow> (False, s)
      | Some node \<Rightarrow>
          (let h1 = (heap s)(node := (heap s node)\<lparr>parent := Some (current s)\<rparr>);
               h2 = h1(current s := (h1 (current s))\<lparr>invalid_ops := invalid_ops (h1 (current s)) @ [node]\<rparr>);
               s' = s\<lparr>heap := h2, temp_node := None\<rparr>
           in (int (length (invalid_ops (heap s' (current s')))) \<ge> max_invalid s', s')))"

definition set_observation :: "ActionObservation list \<Rightarrow> ActionManager \<Rightarrow> ActionManager" where
  "set_observation obs s =
     (case temp_node s of
        None \<Rightarrow> s
      | Some t \<Rightarrow> s\<lparr>heap := (heap s)(t := (heap s t)\<lparr>observations := obs\<rparr>)\<rparr>)"

definition set_reflection :: "bool \<Rightarrow> string \<Rightarrow> string \<Rightarrow> ActionManager \<Rightarrow> ActionManager" where
  "set_reflection v l sm s =
     (case temp_node s of
        None \<Rightarrow> s
      | Some t \<Rightarrow>
          s\<lparr>heap := (heap s)(t := (heap s t)\<lparr>valid := Some v, lessons := l, summary := sm\<rparr>)\<rparr>)"

text \<open>
  The loops that follow \<open>parent\<close> or \<open>children\<close> references need not terminate on an
  arbitrary store (a cyclic one), so they are partial functions: \<open>None\<close> is "does not
  return".
\<close>

partial_function (option) find_exploratory ::
    "(ref \<Rightarrow> OperationNode) \<Rightarrow> ref \<Rightarrow> ref option \<Rightarrow> ref option option" where
  "find_exploratory h sent node =
     (case node of
        None \<Rightarrow> Some None
      | Some n \<Rightarrow>
          (if n = sent then Some None
           else if action_property (h n) = Some EXPLORATORY then Some (Some n)
           else find_exploratory h sent (parent (h n))))"

definition find_backtrack_target :: "ActionManager \<Rightarrow> ref option option" where
  "find_backtrack_target s = find_exploratory (heap s) (sentinel s) (parent (heap s (current s)))"

partial_function (option) dead_child_walk ::
    "(ref \<Rightarrow> OperationNode) \<Rightarrow> ref \<Rightarrow> ref option \<Rightarrow> ref option option" where
  "dead_child_walk h target node =
     (case node of
        None \<Rightarrow> Some None
      | Some n \<Rightarrow>
          (if parent (h n) \<noteq> Some target then dead_child_walk h target (parent (h n))
           else Some (Some n)))"

definition backtrack_to :: "ref \<Rightarrow> string \<Rightarrow> ActionManager \<Rightarrow> ActionManager option" where
  "backtrack_to target dead_path_summary s =
     (case dead_child_walk (heap s) target (Some (current s)) of
        None \<Rightarrow> None
      | Some node \<Rightarrow>
          (let h1 = (case node of
                       None \<Rightarrow> heap s
                     | Some n \<Rightarrow> (heap s)(n := (heap s n)\<lparr>dead_path := True\<rparr>));
               h2 = h1(target := (h1 target)
                        \<lparr>dead_path_summaries := dead_path_summaries (h1 target) @ [dead_path_summary]\<rparr>)
           in Some (s\<lparr>heap := h2, current := target\<rparr>)))"

partial_function (option) chain_loop ::
    "(ref \<Rightarrow> OperationNode) \<Rightarrow> ref \<Rightarrow> ref list \<Rightarrow> ref list option" where
  "chain_loop h node chain =
     (let chain' = chain @ [node];
          live_children = filter (\<lambda>c. \<not> dead_path (h c)) (children (h node));
          children_with_children = filter (\<lambda>c. children (h c) \<noteq> []) live_children
      in if children_with_children \<noteq> [] then chain_loop h (hd children_with_children) chain'
         else if live_children \<noteq> [] then chain_loop h (last live_children) chain'
         else Some chain')"

text \<open>
  Equality of two nodes, which \<open>self.current not in chain\<close> uses. \<open>OperationNode\<close> is a
  dataclass with the generated \<open>__eq__\<close>: it compares the tuples of the fifteen fields from
  left to right and stops at the first pair that differs. Two items, of a tuple or a list,
  are compared by identity first and by \<open>==\<close> only when they are different objects
  (\<open>item_eq\<close>); two lists of different lengths are unequal without any comparison of
  items. The twelve data fields come first: their comparison cannot fail and reaches no
  other node (\<open>tool_status\<close> is a dict, equal to another when both hold the same keys with
  the same values). \<open>invalid_ops\<close>, \<open>parent\<close> and \<open>children\<close> compare nodes again, so
  the comparison is recursive and, where two different nodes point back to one another,
  endless: the interpreter stops it with \<open>RecursionError\<close>. The parameter \<open>depth\<close> is the
  number of nested calls of \<open>__eq__\<close> that the recursion limit still allows, and \<open>None\<close>
  is \<open>RecursionError\<close>.
\<close>

definition dict_eq :: "(string \<times> string) list \<Rightarrow> (string \<times> string) list \<Rightarrow> bool" where
  "dict_eq d1 d2 = (\<forall>k \<in> set (map fst d1 @ map fst d2). map_of d1 k = map_of d2 k)"

definition data_eq :: "OperationNode \<Rightarrow> OperationNode \<Rightarrow> bool" where
  "data_eq a b =
     (thoughts a = thoughts b \<and> action a = action b \<and> action_property a = action_property b \<and>
      observations a = observations b \<and> summary a = summary b \<and> valid a = valid b \<and>
      lessons a = lessons b \<and> dead_path_summaries a = dead_path_summaries b \<and>
      code_chunks a = code_chunks b \<and> dict_eq (tool_status a) (tool_status b) \<and>
      code_change a = code_change b \<and> dead_path a = dead_path b)"

definition item_eq :: "(ref \<Rightarrow> ref \<Rightarrow> bool option) \<Rightarrow> ref \<Rightarrow> ref \<Rightarrow> bool option" where
  "item_eq eq a b = (if a = b then Some True else eq a b)"

fun items_eq :: "(ref \<Rightarrow> ref \<Rightarrow> bool option) \<Rightarrow> ref list \<Rightarrow> ref list \<Rightarrow> bool option" where
  "items_eq eq (x # xs) (y # ys) =
     (case item_eq eq x y of
        None \<Rightarrow> None
      | Some False \<Rightarrow> Some False
      | Some True \<Rightarrow> items_eq eq xs ys)"
| "items_eq eq xs ys = Some True"

definition nodes_eq :: "(ref \<Rightarrow> ref \<Rightarrow> bool option) \<Rightarrow> ref list \<Rightarrow> ref list \<Rightarrow> bool option" where
  "nodes_eq eq xs ys = (if length xs \<noteq> length ys then Some False else items_eq eq xs ys)"

fun parent_eq :: "(ref \<Rightarrow> ref \<Rightarrow> bool option) \<Rightarrow> ref option \<Rightarrow> ref option \<Rightarrow> bool option" where
  "parent_eq eq None None = Some True"
| "parent_eq eq (Some a) (Some b) = item_eq eq a b"
| "parent_eq eq p q = Some False"

primrec node_eq :: "nat \<Rightarrow> (ref \<Rightarrow> OperationNode) \<Rightarrow> ref \<Rightarrow> ref \<Rightarrow> bool option" where
  "node_eq 0 h a b = None"
| "node_eq (Suc depth) h a b =
     (if \<not> data_eq (h a) (h b) then Some False
      else
        (case nodes_eq (node_eq depth h) (invalid_ops (h a)) (invalid_ops (h b)) of
           None \<Rightarrow> None
         | Some False \<Rightarrow> Some False
         | Some True \<Rightarrow>
             (case parent_eq (node_eq depth h) (parent (h a)) (parent (h b)) of
                None \<Rightarrow> None
              | Some False \<Rightarrow> Some False
              | Some True \<Rightarrow> nodes_eq (node_eq depth h) (children (h a)) (children (h b)))))"

text \<open>\<open>x in chain\<close> for a list of nodes: the items are tried in order, each by identity and
  then by \<open>==\<close>, up to the first that is equal.\<close>

fun node_in :: "nat \<Rightarrow> (ref \<Rightarrow> OperationNode) \<Rightarrow> ref \<Rightarrow> ref list \<Rightarrow> bool option" where
  "node_in depth h x [] = Some False"
| "node_in depth h x (e # es) =
     (case item_eq (node_eq depth h) e x of
        None \<Rightarrow> None
      | Some True \<Rightarrow> Some True
      | Some False \<Rightarrow> node_in depth h x es)"

text \<open>
  \<open>get_reasoning_chain\<close>. The outer \<open>None\<close> is "does not return" (the loop on a cyclic
  store); otherwise the result is the chain or the \<open>RecursionError\<close> that the membership
  test raised.
\<close>

definition get_reasoning_chain :: "nat \<Rightarrow> ActionManager \<Rightarrow> (error + ref list) option" where
  "get_reasoning_chain depth s =
     (let live_roots = filter (\<lambda>c. \<not> dead_path (heap s c)) (children (heap s (sentinel s)))
      in if live_roots = [] then Some (Inr [])
         else (case chain_loop (heap s) (hd live_roots) [] of
                 None \<Rightarrow> None
               | Some chain \<Rightarrow>
                   (if has_real_current s
                    then (case node_in depth (heap s) (current s) chain of
                            None \<Rightarrow> Some (Inl (Uncaught ''RecursionError''))
                          | Some True \<Rightarrow> Some (Inr chain)
                          | Some False \<Rightarrow> Some (Inr (chain @ [current s])))
                    else Some (Inr chain))))"

section \<open>Specification-side definitions for the tree\<close>



text \<open>
  The descent of the source, stated on one node: the first live child that has any
  child at all (dead or not), else the last live child, else nothing.
\<close>

definition live_children :: "(ref \<Rightarrow> OperationNode) \<Rightarrow> ref \<Rightarrow> ref list" where
  "live_children h n = filter (\<lambda>c. \<not> dead_path (h c)) (children (h n))"

definition next_on_spine :: "(ref \<Rightarrow> OperationNode) \<Rightarrow> ref \<Rightarrow> ref option" where
  "next_on_spine h n =
     (case find (\<lambda>c. children (h c) \<noteq> []) (live_children h n) of
        Some c \<Rightarrow> Some c
      | None \<Rightarrow> (if live_children h n = [] then None else Some (last (live_children h n))))"




text \<open>
  Helpers that run the operations in sequence, as the repository's tests do
  (\<open>_commit_admissible\<close> in test\_action\_manager.py).
\<close>

definition temp_then :: "string \<Rightarrow> string \<Rightarrow> ActionProperty option \<Rightarrow> ActionManager \<Rightarrow> ActionManager" where
  "temp_then t a p s = (case create_temp_node t a p s of Inl e \<Rightarrow> s | Inr (n, s') \<Rightarrow> s')"

definition commit_node :: "string \<Rightarrow> ActionProperty option \<Rightarrow> ActionManager \<Rightarrow> ActionManager" where
  "commit_node t p s = commit_admissible (temp_then t [] p s)"

definition reject_node :: "string \<Rightarrow> ActionManager \<Rightarrow> bool \<times> ActionManager" where
  "reject_node t s = commit_invalid (temp_then t ''a'' None s)"



text \<open>
  A state in which the same step was taken twice: commit A, reject R under A, commit B
  with the thoughts of A, reject a node with the thoughts of R under B. Addresses: A = 1,
  the first rejected node 2, B = 3, the second rejected node 4.
\<close>

definition repeated_steps :: ActionManager where
  "repeated_steps =
     snd (reject_node ''r''
       (commit_node ''t'' None
         (snd (reject_node ''r''
           (commit_node ''t'' None (init 3))))))"

text \<open>
  The state of \<open>test_reasoning_chain_linear\<close> (test\_action\_manager.py): three commits
  with the default, empty thoughts and action. Addresses: 1, 2, 3.
\<close>

definition linear_three :: ActionManager where
  "linear_three = commit_node [] None (commit_node [] None (commit_node [] None (init 3)))"

text \<open>A state with a pending temp node (address 1).\<close>

definition pending_state :: ActionManager where
  "pending_state = temp_then ''t1'' ''a1'' None (init 3)"

text \<open>Scenario S2 of the specification: \<open>max_invalid = 2\<close>, commit A (address 1), then
  two rejected nodes under A.\<close>

definition s2_A :: ActionManager where
  "s2_A = commit_node ''A'' None (init 2)"

definition s2_first :: "bool \<times> ActionManager" where
  "s2_first = reject_node ''np1'' s2_A"

definition s2_second :: "bool \<times> ActionManager" where
  "s2_second = reject_node ''np2'' (snd s2_first)"

section \<open>Reachable tree states\<close>

text \<open>
  The states that the public operations produce from a fresh manager. A backtrack is
  legal when its target is the one \<open>find_backtrack_target\<close> returns.
\<close>

inductive reachable :: "ActionManager \<Rightarrow> bool" where
  r_init: "reachable (init m)"
| r_create: "reachable s \<Longrightarrow> create_temp_node t a p s = Inr (n, s') \<Longrightarrow> reachable s'"
| r_admissible: "reachable s \<Longrightarrow> reachable (commit_admissible s)"
| r_invalid: "reachable s \<Longrightarrow> reachable (snd (commit_invalid s))"
| r_observation: "reachable s \<Longrightarrow> reachable (set_observation obs s)"
| r_reflection: "reachable s \<Longrightarrow> reachable (set_reflection v l sm s)"
| r_backtrack: "reachable s \<Longrightarrow> find_backtrack_target s = Some (Some target) \<Longrightarrow>
     backtrack_to target dps s = Some s' \<Longrightarrow> reachable s'"

text \<open>
  The invariant of reachable states, for the path \<open>p\<close> of addresses from the first
  committed node down to \<open>current\<close>: each node of the path is the last child of its
  predecessor and is live, its elder siblings are dead, and every child of \<open>current\<close> is
  dead.
\<close>

definition link :: "(ref \<Rightarrow> OperationNode) \<Rightarrow> ref \<Rightarrow> ref \<Rightarrow> bool" where
  "link h a n =
     (children (h a) \<noteq> [] \<and> last (children (h a)) = n \<and>
      (\<forall>c \<in> set (butlast (children (h a))). dead_path (h c)) \<and>
      \<not> dead_path (h n) \<and> parent (h n) = Some a)"

definition tree_inv :: "ActionManager \<Rightarrow> ref list \<Rightarrow> bool" where
  "tree_inv s p =
     (successively (link (heap s)) (sentinel s # p) \<and>
      current s = last (sentinel s # p) \<and>
      distinct (sentinel s # p) \<and>
      parent (heap s (sentinel s)) = None \<and>
      (\<forall>c \<in> set (children (heap s (current s))). dead_path (heap s c)) \<and>
      (\<forall>n \<in> set (sentinel s # p). n < next_ref s \<and> (\<forall>c \<in> set (children (heap s n)). c < next_ref s)) \<and>
      (\<forall>t. temp_node s = Some t \<longrightarrow>
           t < next_ref s \<and> t \<notin> set (sentinel s # p) \<and> children (heap s t) = [] \<and> \<not> dead_path (heap s t)))"

section \<open>Strings\<close>

text \<open>
  Python's \<open>str\<close> is modelled by \<open>string\<close>; a character stands for the code point of
  the same number, so the model covers the code points below 256. \<open>is_space\<close> is
  \<open>str.isspace\<close> on one character (what \<open>strip\<close> removes) and \<open>is_linebreak\<close> the line
  boundaries of \<open>str.splitlines\<close>; a carriage return followed by a line feed is one
  boundary.
\<close>


definition is_space :: "char \<Rightarrow> bool" where
  "is_space c = (of_char c \<in> {9, 10, 11, 12, 13, 28, 29, 30, 31, 32, 133, 160 :: nat})"

definition is_linebreak :: "char \<Rightarrow> bool" where
  "is_linebreak c = (of_char c \<in> {10, 11, 12, 13, 28, 29, 30, 133 :: nat})"

definition lstrip :: "string \<Rightarrow> string" where
  "lstrip s = dropWhile is_space s"

definition rstrip :: "string \<Rightarrow> string" where
  "rstrip s = rev (dropWhile is_space (rev s))"

definition strip :: "string \<Rightarrow> string" where
  "strip s = rstrip (lstrip s)"

definition lower_char :: "char \<Rightarrow> char" where
  "lower_char c =
     (let n = of_char c :: nat
      in if (65 \<le> n \<and> n \<le> 90) \<or> (192 \<le> n \<and> n \<le> 222 \<and> n \<noteq> 215) then char_of (n + 32) else c)"

definition lower :: "string \<Rightarrow> string" where
  "lower s = map lower_char s"

function splitlines_keepends :: "string \<Rightarrow> string list" where
  "splitlines_keepends [] = []"
| "splitlines_keepends (c # cs) =
     (if is_linebreak c then
        (if c = CHR 0x0D \<and> cs \<noteq> [] \<and> hd cs = CHR 0x0A
         then [c, CHR 0x0A] # splitlines_keepends (tl cs)
         else [c] # splitlines_keepends cs)
      else (case splitlines_keepends cs of [] \<Rightarrow> [[c]] | l # ls \<Rightarrow> (c # l) # ls))"
  by pat_completeness auto
termination
  by (relation "measure length") auto

function splitlines :: "string \<Rightarrow> string list" where
  "splitlines [] = []"
| "splitlines (c # cs) =
     (if is_linebreak c then
        (if c = CHR 0x0D \<and> cs \<noteq> [] \<and> hd cs = CHR 0x0A
         then [] # splitlines (tl cs)
         else [] # splitlines cs)
      else (case splitlines cs of [] \<Rightarrow> [[c]] | l # ls \<Rightarrow> (c # l) # ls))"
  by pat_completeness auto
termination
  by (relation "measure length") auto

section \<open>Submission check (llm\_ide\_agent.py)\<close>

text \<open>\<open>_check_submission\<close>: \<open>Inl (Submitted text)\<close> is the raised exception, \<open>Inr ()\<close> the
  normal return.\<close>

definition check_submission :: "string \<Rightarrow> error + unit" where
  "check_submission out =
     (let lines = splitlines_keepends (lstrip out)
      in if lines \<noteq> [] \<and>
            strip (hd lines) \<in> {''MINI_SWE_AGENT_FINAL_OUTPUT'', ''COMPLETE_TASK_AND_SUBMIT_FINAL_OUTPUT''}
         then Inl (Submitted (concat (tl lines)))
         else Inr ())"

text \<open>
  The claim in its own words: a line is blank when stripping leaves nothing; the first
  non-blank line of the output, with the text that follows it; submission exactly when
  that line, stripped, is one of the two sentinel tokens.
\<close>

definition blank :: "string \<Rightarrow> bool" where
  "blank l = (strip l = [])"

definition first_nonblank_line :: "string \<Rightarrow> (string \<times> string) option" where
  "first_nonblank_line out =
     (case dropWhile blank (splitlines_keepends out) of
        [] \<Rightarrow> None
      | l # rest \<Rightarrow> Some (l, concat rest))"

definition claimed_submission :: "string \<Rightarrow> error + unit" where
  "claimed_submission out =
     (case first_nonblank_line out of
        None \<Rightarrow> Inr ()
      | Some (l, rest) \<Rightarrow>
          if strip l \<in> {''MINI_SWE_AGENT_FINAL_OUTPUT'', ''COMPLETE_TASK_AND_SUBMIT_FINAL_OUTPUT''}
          then Inl (Submitted rest) else Inr ())"

section \<open>Parse trees (ts\_utils.py)\<close>

text \<open>
  The parser is external; the code uses its trees only through the row of
  \<open>start_point\<close> and \<open>end_point\<close> (0-based), the node type, the text, the children and the
  child with a given field name. \<open>ts_field\<close> is the name of the field a node fills in its
  parent (empty when it fills none). The parser itself is a parameter \<open>parse_python\<close> of
  the functions that call it; \<open>get_file_fn\<close> is the delegate that reads a file, also a
  parameter, so that it may answer differently from one call to the next.
\<close>



datatype ts_node =
  TSNode (ts_type: string) (start_point: "nat \<times> nat") (end_point: "nat \<times> nat")
         (ts_field: string) (ts_text: string) (ts_children: "ts_node list")

fun walk_enclosing :: "int \<Rightarrow> string \<Rightarrow> ts_node \<Rightarrow> ts_node option \<Rightarrow> ts_node option" where
  "walk_enclosing idx target_type (TSNode ty sp ep fl tx cs) result =
     (if int (fst sp) \<le> idx \<and> idx \<le> int (fst ep)
      then fold (walk_enclosing idx target_type) cs
             (if ty = target_type then Some (TSNode ty sp ep fl tx cs) else result)
      else result)"

definition enclosing_node :: "ts_node \<Rightarrow> int \<Rightarrow> string \<Rightarrow> ts_node option" where
  "enclosing_node root line_num target_type = walk_enclosing (line_num - 1) target_type root None"

definition find_children :: "ts_node \<Rightarrow> string \<Rightarrow> ts_node list" where
  "find_children node child_type = filter (\<lambda>child. ts_type child = child_type) (ts_children node)"

definition find_first_child :: "ts_node \<Rightarrow> string \<Rightarrow> ts_node option" where
  "find_first_child node child_type = find (\<lambda>child. ts_type child = child_type) (ts_children node)"

definition child_by_field_name :: "ts_node \<Rightarrow> string \<Rightarrow> ts_node option" where
  "child_by_field_name node name = find (\<lambda>child. ts_field child = name) (ts_children node)"

definition node_name :: "ts_node \<Rightarrow> string" where
  "node_name node =
     (case find_first_child node ''identifier'' of Some child \<Rightarrow> ts_text child | None \<Rightarrow> [])"

definition node_lines :: "ts_node \<Rightarrow> int \<times> int" where
  "node_lines node = (int (fst (start_point node)) + 1, int (fst (end_point node)) + 1)"

definition node_text :: "ts_node option \<Rightarrow> string" where
  "node_text node = (case node of Some n \<Rightarrow> ts_text n | None \<Rightarrow> [])"

definition line_range :: "int \<Rightarrow> int \<Rightarrow> int list" where
  "line_range start end_line = (if start \<le> end_line then [start..end_line] else [])"

text \<open>The two dicts that \<open>_build_signature_map\<close> fills, \<open>signatures\<close> and \<open>ranges\<close>,
  are passed through the traversal and returned.\<close>

type_synonym sig_maps = "((string \<times> string) \<rightharpoonup> int list) \<times> ((string \<times> string) \<rightharpoonup> int list)"

definition signature_range :: "ts_node \<Rightarrow> int option \<Rightarrow> int list" where
  "signature_range node decorator_start =
     (let body = find_first_child node ''block'';
          start0 = int (fst (start_point node)) + 1;
          start = (case decorator_start of
                     Some d \<Rightarrow> (if d \<noteq> 0 then min start0 d else start0)
                   | None \<Rightarrow> start0);
          end_line = (case body of
                        Some b \<Rightarrow> int (fst (start_point b))
                      | None \<Rightarrow> int (fst (end_point node)) + 1)
      in line_range start (max start end_line))"

definition add_signature :: "string \<Rightarrow> string \<Rightarrow> ts_node \<Rightarrow> int option \<Rightarrow> sig_maps \<Rightarrow> sig_maps" where
  "add_signature cname fname node decorator_start maps =
     ((fst maps)((cname, fname) \<mapsto> signature_range node decorator_start),
      (snd maps)((cname, fname) \<mapsto>
         line_range (int (fst (start_point node)) + 1) (int (fst (end_point node)) + 1)))"

function signature_walk :: "ts_node \<Rightarrow> string \<Rightarrow> int option \<Rightarrow> sig_maps \<Rightarrow> sig_maps" where
  "signature_walk (TSNode ty sp ep fl tx cs) cname decorator_start maps =
     (let node = TSNode ty sp ep fl tx cs
      in if ty = ''decorated_definition'' then
           (let decorators = find_children node ''decorator'';
                inherited_start =
                  (if decorators \<noteq> []
                   then Some (min_list (map (\<lambda>deco. int (fst (start_point deco)) + 1) decorators))
                   else decorator_start)
            in fold (\<lambda>child acc. if ts_type child \<noteq> ''decorator''
                                  then signature_walk child cname inherited_start acc else acc)
                 cs maps)
         else if ty = ''class_definition'' then
           (let class_text = node_text (child_by_field_name node ''name'');
                sig_lines = signature_range node decorator_start;
                maps1 = ((fst maps)(([], class_text) \<mapsto> sig_lines, (class_text, []) \<mapsto> sig_lines),
                         snd maps)
            in (case find_first_child node ''block'' of
                  Some body \<Rightarrow>
                    fold (\<lambda>child acc. signature_walk child class_text None acc) (ts_children body) maps1
                | None \<Rightarrow> maps1))
         else if ty = ''function_definition'' then
           add_signature cname (node_text (child_by_field_name node ''name'')) node decorator_start maps
         else fold (\<lambda>child acc. signature_walk child cname None acc) cs maps)"
  by pat_completeness auto
termination
  apply (relation "measure (\<lambda>(node, _, _, _). size node)")
     apply (auto simp: less_Suc_eq_le find_first_child_def find_Some_iff intro: size_list_estimation')
  subgoal premises prems for cs xd i
  proof -
    have "size xd \<le> size_list size (ts_children (cs ! i))"
      using prems(1) by (rule size_list_estimation') simp
    also have "\<dots> \<le> size (cs ! i)" by (cases "cs ! i") simp
    also have "\<dots> \<le> size_list size cs"
      using prems(2) by (intro size_list_estimation' [where x = "cs ! i"]) simp_all
    finally show ?thesis .
  qed
  done

section \<open>The code context manager (code\_context\_manager.py)\<close>

text \<open>
  The manager. \<open>cwd\<close>, \<open>file_cache\<close> and \<open>parse_cache\<close> are the attributes of the Python
  object. The other two fields are a record of the calls it has made so far, oldest first:
  \<open>get_file_calls\<close> the paths passed to the delegate \<open>get_file_fn\<close>, \<open>parse_calls\<close> the
  contents passed to \<open>ts_utils.parse_python\<close>. They make the number of calls, which the
  results alone do not show, a part of the state; no function reads them.
\<close>

record CodeContextManager =
  cwd :: string
  file_cache :: "string \<rightharpoonup> string"
  parse_cache :: "string \<rightharpoonup> ts_node"
  get_file_calls :: "string list"
  parse_calls :: "string list"

definition new_manager :: "string \<Rightarrow> CodeContextManager" where
  "new_manager d =
     \<lparr>cwd = d, file_cache = Map.empty, parse_cache = Map.empty, get_file_calls = [],
      parse_calls = []\<rparr>"

definition resolve_path :: "CodeContextManager \<Rightarrow> string \<Rightarrow> string" where
  "resolve_path m path =
     (if cwd m \<noteq> [] \<and> \<not> (path \<noteq> [] \<and> hd path = CHR ''/'') then cwd m @ ''/'' @ path else path)"

definition read_file ::
    "(string \<Rightarrow> string) \<Rightarrow> CodeContextManager \<Rightarrow> string \<Rightarrow> string \<times> CodeContextManager" where
  "read_file get_file_fn m path =
     (case file_cache m path of
        Some content \<Rightarrow> (content, m)
      | None \<Rightarrow>
          (let content = get_file_fn path
           in (content, m\<lparr>file_cache := (file_cache m)(path \<mapsto> content),
                          get_file_calls := get_file_calls m @ [path]\<rparr>)))"

definition parse_file ::
    "(string \<Rightarrow> string) \<Rightarrow> (string \<Rightarrow> ts_node) \<Rightarrow> CodeContextManager \<Rightarrow> string
       \<Rightarrow> ts_node \<times> CodeContextManager" where
  "parse_file get_file_fn parse_python m path =
     (let (content, m1) = read_file get_file_fn m path
      in (case parse_cache m1 path of
            Some tree \<Rightarrow> (tree, m1)
          | None \<Rightarrow>
              (let tree = parse_python content
               in (tree, m1\<lparr>parse_cache := (parse_cache m1)(path \<mapsto> tree),
                            parse_calls := parse_calls m1 @ [content]\<rparr>))))"

definition empty_chunk :: "string \<Rightarrow> CodeChunk" where
  "empty_chunk path =
     \<lparr>file_path = path, class_name = [], function_name = [], whole_function = False,
      lines = [], eof = False\<rparr>"

definition get_nearby_code_context ::
    "(string \<Rightarrow> string) \<Rightarrow> (string \<Rightarrow> ts_node) \<Rightarrow> CodeContextManager \<Rightarrow> string \<Rightarrow> int \<Rightarrow> int
       \<Rightarrow> CodeChunk \<times> CodeContextManager" where
  "get_nearby_code_context get_file_fn parse_python m path line_number window_size =
     (let read_path = resolve_path m path;
          (content, m1) = read_file get_file_fn m read_path
      in if content = [] then (empty_chunk path, m1)
         else
           (let total_lines = int (length (splitlines content));
                (root, m2) = parse_file get_file_fn parse_python m1 read_path;
                func_node = enclosing_node root line_number ''function_definition'';
                class_node = enclosing_node root line_number ''class_definition'';
                cname = (case class_node of Some c \<Rightarrow> node_name c | None \<Rightarrow> []);
                fname = (case func_node of Some f \<Rightarrow> node_name f | None \<Rightarrow> []);
                (whole, ls) =
                  (case func_node of
                     None \<Rightarrow>
                       (False, [max 1 (line_number - window_size div 2) ..
                                min total_lines (line_number + window_size div 2)])
                   | Some f \<Rightarrow>
                       (let (func_start, func_end) = node_lines f;
                            func_len = func_end - func_start + 1
                        in if func_len \<le> window_size then (True, [func_start..func_end])
                           else (False, [max func_start (line_number - window_size div 2) ..
                                         min func_end (line_number + window_size div 2)])))
            in (\<lparr>file_path = path, class_name = cname, function_name = fname,
                 whole_function = whole, lines = ls, eof = False\<rparr>, m2)))"

definition get_code_lines ::
    "(string \<Rightarrow> string) \<Rightarrow> CodeContextManager \<Rightarrow> string \<Rightarrow> int \<Rightarrow> int
       \<Rightarrow> CodeChunk \<times> CodeContextManager" where
  "get_code_lines get_file_fn m path start end_line =
     (let read_path = resolve_path m path;
          (content, m1) = read_file get_file_fn m read_path
      in if content = [] then (empty_chunk path, m1)
         else
           (let total = int (length (splitlines content));
                clamped_end = min end_line total
            in (\<lparr>file_path = path, class_name = [], function_name = [], whole_function = False,
                 lines = [max 1 start..clamped_end], eof = (end_line > total)\<rparr>, m1)))"


definition statement_blocks :: "string list" where
  "statement_blocks =
     [''if_statement'', ''for_statement'', ''while_statement'', ''with_statement'',
      ''try_statement'', ''match_statement'']"

definition clause_blocks :: "string list" where
  "clause_blocks =
     [''elif_clause'', ''else_clause'', ''except_clause'', ''finally_clause'', ''case_clause'']"

function collect_declarations :: "ts_node \<Rightarrow> int list" where
  "collect_declarations (TSNode ty sp ep fl tx cs) =
     (if ty \<in> set statement_blocks \<or> ty \<in> set clause_blocks then [int (fst sp) + 1] else []) @
     concat (map (\<lambda>child.
        if ts_type child \<in> set clause_blocks then collect_declarations child
        else if ts_type child = ''block''
        then concat (map (\<lambda>grandchild.
               if ts_type grandchild \<in> set clause_blocks then collect_declarations grandchild
               else []) (ts_children child))
        else []) cs)"
  by pat_completeness auto
termination
  apply (relation "measure size")
    apply (auto simp: less_Suc_eq_le intro: size_list_estimation')
  subgoal premises prems for cs child grandchild
  proof -
    have "size grandchild \<le> size_list size (ts_children child)"
      using prems(4) by (rule size_list_estimation') simp
    also have "\<dots> \<le> size child" by (cases child) simp
    also have "\<dots> \<le> size_list size cs"
      using prems(1) by (rule size_list_estimation') simp
    finally show ?thesis .
  qed
  done

text \<open>\<open>parents\<close> maps a line to the declaration lines of the blocks around it; a line
  that is not a key of the Python dict maps to the empty list, which is what
  \<open>block_map.get(line, set())\<close> returns for it.\<close>

fun block_walk :: "ts_node \<Rightarrow> int list \<Rightarrow> (int \<Rightarrow> int list) \<Rightarrow> (int \<Rightarrow> int list)" where
  "block_walk (TSNode ty sp ep fl tx cs) enclosing parents =
     (let node = TSNode ty sp ep fl tx cs;
          local = (if ty \<in> set statement_blocks then enclosing @ collect_declarations node
                   else enclosing);
          parents1 =
            (if ty \<in> set statement_blocks
             then fold (\<lambda>ln p. p(ln := p ln @ local))
                    (line_range (int (fst sp) + 1) (int (fst ep) + 1)) parents
             else parents)
      in fold (\<lambda>child p. block_walk child local p) cs parents1)"

definition build_signature_map :: "ts_node \<Rightarrow> sig_maps" where
  "build_signature_map root = signature_walk root [] None (Map.empty, Map.empty)"

definition build_block_parents :: "ts_node \<Rightarrow> (int \<Rightarrow> int list)" where
  "build_block_parents root = block_walk root [] (\<lambda>_. [])"

definition dict_get :: "('k \<rightharpoonup> 'v list) \<Rightarrow> 'k \<Rightarrow> 'v list" where
  "dict_get d k = (case d k of Some v \<Rightarrow> v | None \<Rightarrow> [])"

definition get_signature_lines ::
    "((string \<times> string) \<rightharpoonup> int list) \<Rightarrow> string \<Rightarrow> string \<Rightarrow> int list" where
  "get_signature_lines sig_map cname fname =
     (if cname \<noteq> [] then dict_get sig_map (cname, []) else []) @
     (if fname \<noteq> [] then dict_get sig_map (cname, fname)
      else if cname \<noteq> [] then dict_get sig_map ([], cname) else [])"

definition get_function_range ::
    "((string \<times> string) \<rightharpoonup> int list) \<Rightarrow> string \<Rightarrow> string \<Rightarrow> int list" where
  "get_function_range range_map cname fname = dict_get range_map (cname, fname)"

text \<open>
  The Python sets of line numbers (\<open>needed\<close>, \<open>local\<close>, the values of \<open>ranges\<close> and
  \<open>parents\<close>) are kept as lists of their insertions. They are only ever tested for
  emptiness, merged into one another, or sorted: \<open>sorted(s)\<close> on such a set is
  \<open>sort (remdups xs)\<close> on its list.
\<close>

definition chunk_needed_lines ::
    "sig_maps \<Rightarrow> (int \<Rightarrow> int list) \<Rightarrow> CodeChunk \<Rightarrow> int list" where
  "chunk_needed_lines maps block_map chunk =
     get_signature_lines (fst maps) (class_name chunk) (function_name chunk) @
     (if whole_function chunk
      then get_function_range (snd maps) (class_name chunk) (function_name chunk)
      else lines chunk @ concat (map block_map (lines chunk)))"

text \<open>\<open>_parse_file_content\<close> parses the content it is given; it neither reads nor fills
  \<open>_parse_cache\<close>.\<close>

definition parse_file_content ::
    "(string \<Rightarrow> ts_node) \<Rightarrow> CodeContextManager \<Rightarrow> string \<Rightarrow> ts_node \<times> CodeContextManager" where
  "parse_file_content parse_python m content =
     (parse_python content, m\<lparr>parse_calls := parse_calls m @ [content]\<rparr>)"

definition collect_needed_lines ::
    "(string \<Rightarrow> ts_node) \<Rightarrow> CodeContextManager \<Rightarrow> CodeChunk list \<Rightarrow> string
       \<Rightarrow> int list \<times> CodeContextManager" where
  "collect_needed_lines parse_python m chunks content =
     (let (root, m1) = parse_file_content parse_python m content;
          maps = build_signature_map root;
          block_map = build_block_parents root
      in (fold (\<lambda>chunk needed. needed @ chunk_needed_lines maps block_map chunk) chunks [], m1))"

text \<open>\<open>str(n)\<close> for an integer, \<open>"sep".join(parts)\<close>, and right alignment in a field
  (\<open>f"{n:>{width}}"\<close>).\<close>

function str_nat :: "nat \<Rightarrow> string" where
  "str_nat n = (if n < 10 then [''0123456789'' ! n] else str_nat (n div 10) @ [''0123456789'' ! (n mod 10)])"
  by pat_completeness auto
termination
  by (relation "measure id") auto

definition str_int :: "int \<Rightarrow> string" where
  "str_int i = (if i < 0 then CHR ''-'' # str_nat (nat (- i)) else str_nat (nat i))"

fun join :: "string \<Rightarrow> string list \<Rightarrow> string" where
  "join sep [] = []"
| "join sep [p] = p"
| "join sep (p # q # ps) = p @ sep @ join sep (q # ps)"

definition rjust :: "nat \<Rightarrow> string \<Rightarrow> string" where
  "rjust width s = replicate (width - length s) CHR '' '' @ s"

definition max_list :: "int list \<Rightarrow> int" where
  "max_list xs = fold max (tl xs) (hd xs)"

fun render_parts :: "string list \<Rightarrow> nat \<Rightarrow> int list \<Rightarrow> int option \<Rightarrow> string list" where
  "render_parts file_lines width [] prev_line = []"
| "render_parts file_lines width (line_number # rest) prev_line =
     (if line_number < 1 \<or> line_number > int (length file_lines)
      then render_parts file_lines width rest prev_line
      else (case prev_line of
              None \<Rightarrow> []
            | Some prev \<Rightarrow> (if line_number > prev + 1 then [''...''] else [])) @
           [rjust width (str_int line_number) @ '' '' @ file_lines ! nat (line_number - 1)] @
           render_parts file_lines width rest (Some line_number))"

definition render_lines :: "string list \<Rightarrow> int list \<Rightarrow> bool \<Rightarrow> string" where
  "render_lines file_lines line_numbers eof_flag =
     (if line_numbers = [] then []
      else
        (let width = length (str_int (max_list line_numbers)) + 1;
             parts = render_parts file_lines width line_numbers None
         in join ''\<newline>'' (parts @ (if eof_flag then [''  [EOF]''] else []))))"

text \<open>The dicts \<open>by_key\<close> and \<open>files\<close> keep their insertion order, which decides the order
  of the output; they are association lists with unique keys.\<close>

definition merge_step ::
    "((string \<times> string \<times> string) \<times> CodeChunk) list \<Rightarrow> CodeChunk
       \<Rightarrow> ((string \<times> string \<times> string) \<times> CodeChunk) list" where
  "merge_step by_key chunk =
     (let key = (file_path chunk, class_name chunk, function_name chunk)
      in case map_of by_key key of
           None \<Rightarrow>
             by_key @
             [(key, \<lparr>file_path = file_path chunk, class_name = class_name chunk,
                     function_name = function_name chunk, whole_function = whole_function chunk,
                     lines = sort (remdups (lines chunk)), eof = eof chunk\<rparr>)]
         | Some _ \<Rightarrow>
             map (\<lambda>(k, existing).
                    if k = key
                    then (k, existing\<lparr>whole_function := whole_function existing \<or> whole_function chunk,
                                       eof := eof existing \<or> eof chunk,
                                       lines := sort (remdups (lines existing @ lines chunk))\<rparr>)
                    else (k, existing)) by_key)"

definition merge_chunks :: "CodeChunk list \<Rightarrow> CodeChunk list" where
  "merge_chunks chunks = map snd (fold (\<lambda>chunk by_key. merge_step by_key chunk) chunks [])"

definition group_step :: "(string \<times> CodeChunk list) list \<Rightarrow> CodeChunk \<Rightarrow> (string \<times> CodeChunk list) list" where
  "group_step files chunk =
     (case map_of files (file_path chunk) of
        None \<Rightarrow> files @ [(file_path chunk, [chunk])]
      | Some _ \<Rightarrow>
          map (\<lambda>(path, cs). if path = file_path chunk then (path, cs @ [chunk]) else (path, cs)) files)"

definition render_file ::
    "(string \<Rightarrow> string) \<Rightarrow> (string \<Rightarrow> ts_node) \<Rightarrow> string \<times> CodeChunk list
       \<Rightarrow> string list \<times> CodeContextManager \<Rightarrow> string list \<times> CodeContextManager" where
  "render_file get_file_fn parse_python entry acc =
     (let (path, file_chunks) = entry;
          (sections, m) = acc;
          full_path = resolve_path m path;
          (content, m1) = read_file get_file_fn m full_path;
          file_lines = splitlines content
      in if file_lines = [] then (sections, m1)
         else
           (let (needed_lines, m2) = collect_needed_lines parse_python m1 file_chunks content
            in if needed_lines = [] then (sections, m2)
               else
                 (let eof_flag = (\<exists>c \<in> set file_chunks. eof c);
                      rendered = render_lines file_lines (sort (remdups needed_lines)) eof_flag
                  in (sections @ [''## File: `'' @ path @ ''`\<newline>'' @ rendered], m2))))"

definition render ::
    "(string \<Rightarrow> string) \<Rightarrow> (string \<Rightarrow> ts_node) \<Rightarrow> CodeContextManager \<Rightarrow> CodeChunk list
       \<Rightarrow> string \<times> CodeContextManager" where
  "render get_file_fn parse_python m chunks =
     (let merged = merge_chunks chunks
      in if merged = [] then ([], m)
         else
           (let files = fold (\<lambda>chunk fs. group_step fs chunk) merged [];
                (sections, m') = fold (render_file get_file_fn parse_python) files ([], m)
            in (join ''\<newline>\<newline>'' sections, m')))"

section \<open>Specification-side definitions for the code context\<close>

text \<open>
  A node contains a line when the line's 0-based index lies between its start and end
  rows. \<open>enclosing_candidates\<close> lists, parents before children, the nodes of a given type
  that contain the line and are reached through nodes that contain it; the innermost
  enclosing one is the last of the list.
\<close>


definition contains_line :: "ts_node \<Rightarrow> int \<Rightarrow> bool" where
  "contains_line node idx = (int (fst (start_point node)) \<le> idx \<and> idx \<le> int (fst (end_point node)))"

fun enclosing_candidates :: "int \<Rightarrow> string \<Rightarrow> ts_node \<Rightarrow> ts_node list" where
  "enclosing_candidates idx target_type (TSNode ty sp ep fl tx cs) =
     (if int (fst sp) \<le> idx \<and> idx \<le> int (fst ep)
      then (if ty = target_type then [TSNode ty sp ep fl tx cs] else []) @
           concat (map (enclosing_candidates idx target_type) cs)
      else [])"

definition last_or :: "'a option \<Rightarrow> 'a list \<Rightarrow> 'a option" where
  "last_or r xs = (case xs of [] \<Rightarrow> r | _ \<Rightarrow> Some (last xs))"

text \<open>
  Scenario S4 of the specification: a short method in a class, with the tree the parser
  gives for it (leaves below the statements left out). \<open>nine_lines\<close> is a file of nine
  statements and no function definition.
\<close>

definition s4_source :: string where
  "s4_source =
     ''class MyClass:\<newline>  def short(self, x):\<newline>    a = x+1\<newline>    b = a*2\<newline>    return b\<newline>''"

definition s4_tree :: ts_node where
  "s4_tree =
     TSNode ''module'' (0, 0) (5, 0) [] s4_source
       [TSNode ''class_definition'' (0, 0) (4, 12) [] []
          [TSNode ''class'' (0, 0) (0, 5) [] ''class'' [],
           TSNode ''identifier'' (0, 6) (0, 13) ''name'' ''MyClass'' [],
           TSNode '':'' (0, 13) (0, 14) [] '':'' [],
           TSNode ''block'' (1, 2) (4, 12) ''body'' []
             [TSNode ''function_definition'' (1, 2) (4, 12) [] []
                [TSNode ''def'' (1, 2) (1, 5) [] ''def'' [],
                 TSNode ''identifier'' (1, 6) (1, 11) ''name'' ''short'' [],
                 TSNode ''parameters'' (1, 11) (1, 20) ''parameters'' ''(self, x)'' [],
                 TSNode '':'' (1, 20) (1, 21) [] '':'' [],
                 TSNode ''block'' (2, 4) (4, 12) ''body'' []
                   [TSNode ''expression_statement'' (2, 4) (2, 11) [] ''a = x+1'' [],
                    TSNode ''expression_statement'' (3, 4) (3, 11) [] ''b = a*2'' [],
                    TSNode ''return_statement'' (4, 4) (4, 12) [] ''return b'' []]]]]]"

definition nine_lines :: string where
  "nine_lines = concat (replicate 9 ''pass\<newline>'')"

definition nine_lines_tree :: ts_node where
  "nine_lines_tree =
     TSNode ''module'' (0, 0) (9, 0) [] nine_lines
       (map (\<lambda>i. TSNode ''pass_statement'' (i, 0) (i, 4) [] ''pass''
                    [TSNode ''pass'' (i, 0) (i, 4) [] ''pass'' []]) [0..<9])"

text \<open>
  Two delegates agree on the uncached paths when they can differ only on paths that are
  already in the file cache. The caches are consistent with a parser when every cached
  tree is the parse of the cached content of its path.
\<close>


definition cache_consistent :: "(string \<Rightarrow> ts_node) \<Rightarrow> CodeContextManager \<Rightarrow> bool" where
  "cache_consistent parse_python m =
     (\<forall>p t. parse_cache m p = Some t \<longrightarrow> (\<exists>c. file_cache m p = Some c \<and> t = parse_python c))"

definition agree_uncached :: "(string \<Rightarrow> string) \<Rightarrow> (string \<Rightarrow> string) \<Rightarrow> CodeContextManager \<Rightarrow> bool" where
  "agree_uncached gf gf' m = (\<forall>p. file_cache m p = None \<longrightarrow> gf p = gf' p)"

text \<open>
  The order in which the distinct elements of a list first occur: the key order of a
  Python dict filled from the list. The key under which \<open>_merge_chunks\<close> merges a chunk,
  and the merged chunk of a key as a function of the set of chunks supplied.
\<close>


definition insertion_order :: "'a list \<Rightarrow> 'a list" where
  "insertion_order xs = fold (\<lambda>x acc. if x \<in> set acc then acc else acc @ [x]) xs []"

definition chunk_key :: "CodeChunk \<Rightarrow> string \<times> string \<times> string" where
  "chunk_key c = (file_path c, class_name c, function_name c)"

definition merged_of :: "CodeChunk set \<Rightarrow> string \<times> string \<times> string \<Rightarrow> CodeChunk" where
  "merged_of S k =
     \<lparr>file_path = fst k, class_name = fst (snd k), function_name = snd (snd k),
      whole_function = (\<exists>c \<in> S. chunk_key c = k \<and> whole_function c),
      lines = sorted_list_of_set (\<Union>c \<in> {c \<in> S. chunk_key c = k}. set (lines c)),
      eof = (\<exists>c \<in> S. chunk_key c = k \<and> eof c)\<rparr>"

text \<open>Two files with the same single line, its parse tree, and one chunk for each file.\<close>

definition one_line :: string where
  "one_line = ''x = 1\<newline>''"

definition one_line_tree :: ts_node where
  "one_line_tree =
     TSNode ''module'' (0, 0) (1, 0) [] one_line
       [TSNode ''expression_statement'' (0, 0) (0, 5) [] ''x = 1''
          [TSNode ''assignment'' (0, 0) (0, 5) [] ''x = 1''
             [TSNode ''identifier'' (0, 0) (0, 1) ''left'' ''x'' [],
              TSNode ''='' (0, 2) (0, 3) [] ''='' [],
              TSNode ''integer'' (0, 4) (0, 5) ''right'' ''1'' []]]]"

definition chunk_a :: CodeChunk where
  "chunk_a = \<lparr>file_path = ''a.py'', class_name = [], function_name = [], whole_function = False,
              lines = [1], eof = False\<rparr>"

definition chunk_b :: CodeChunk where
  "chunk_b = \<lparr>file_path = ''b.py'', class_name = [], function_name = [], whole_function = False,
              lines = [1], eof = False\<rparr>"

text \<open>
  The content that the manager has for a path when its delegate is \<open>get_file_fn\<close>: the
  cached one if there is one, else what the delegate answers. The managers that the three
  public operations produce from a fresh one; the delegate may differ from call to call
  (the files of the sandbox change), the parser is the same throughout. The record of the
  calls matches the cache when it names each cached path once and no other path. A manager
  after one \<open>get_nearby_code_context\<close> call on the one-line file.
\<close>

definition calls_match_cache :: "CodeContextManager \<Rightarrow> bool" where
  "calls_match_cache m =
     (distinct (get_file_calls m) \<and> set (get_file_calls m) = dom (file_cache m))"

definition content_at :: "(string \<Rightarrow> string) \<Rightarrow> CodeContextManager \<Rightarrow> string \<Rightarrow> string" where
  "content_at get_file_fn m path =
     (case file_cache m path of Some content \<Rightarrow> content | None \<Rightarrow> get_file_fn path)"

inductive reachable_manager :: "(string \<Rightarrow> ts_node) \<Rightarrow> CodeContextManager \<Rightarrow> bool"
  for parse_python :: "string \<Rightarrow> ts_node" where
  m_new: "reachable_manager parse_python (new_manager d)"
| m_nearby: "reachable_manager parse_python m \<Longrightarrow>
     reachable_manager parse_python
       (snd (get_nearby_code_context get_file_fn parse_python m path line_number window_size))"
| m_lines: "reachable_manager parse_python m \<Longrightarrow>
     reachable_manager parse_python (snd (get_code_lines get_file_fn m path start end_line))"
| m_render: "reachable_manager parse_python m \<Longrightarrow>
     reachable_manager parse_python (snd (render get_file_fn parse_python m chunks))"

definition after_nearby :: CodeContextManager where
  "after_nearby =
     snd (get_nearby_code_context (\<lambda>_. one_line) (\<lambda>_. one_line_tree) (new_manager []) ''a.py'' 1 100)"

section \<open>Parsing the model response (llm\_ide\_agent.py)\<close>

text \<open>
  \<open>str_partition pat s\<close> splits \<open>s\<close> at the first occurrence of \<open>pat\<close> into the text
  before and the text after it. The regular expression \<open><tag>(.*?)</tag>\<close> with
  \<open>re.DOTALL\<close> matches from the first opening tag that has a closing tag after it, which is
  the first opening tag, up to the first closing tag after it: \<open>tag_body\<close> returns group 1
  and the text after the match, \<open>all_tag_bodies\<close> the groups of \<open>re.finditer\<close>.
  \<open>is_word\<close> is the class \<open>\w\<close> on the code points below 256.
\<close>


fun str_partition :: "string \<Rightarrow> string \<Rightarrow> (string \<times> string) option" where
  "str_partition pat [] = (if pat = [] then Some ([], []) else None)"
| "str_partition pat (c # cs) =
     (if take (length pat) (c # cs) = pat then Some ([], drop (length pat) (c # cs))
      else (case str_partition pat cs of
              None \<Rightarrow> None
            | Some (before, after) \<Rightarrow> Some (c # before, after)))"

definition tag_body :: "string \<Rightarrow> string \<Rightarrow> (string \<times> string) option" where
  "tag_body tag content =
     (case str_partition (''<'' @ tag @ ''>'') content of
        None \<Rightarrow> None
      | Some (_, rest) \<Rightarrow> str_partition (''</'' @ tag @ ''>'') rest)"

definition parse_tag :: "string \<Rightarrow> string \<Rightarrow> string" where
  "parse_tag content tag = (case tag_body tag content of Some (inner, _) \<Rightarrow> strip inner | None \<Rightarrow> [])"

function all_tag_bodies :: "string \<Rightarrow> string \<Rightarrow> string list" where
  "all_tag_bodies tag content =
     (case tag_body tag content of
        None \<Rightarrow> []
      | Some (inner, rest) \<Rightarrow> inner # all_tag_bodies tag rest)"
  by pat_completeness auto
termination
proof (relation "measure (\<lambda>(tag, content). length content)")
  show "wf (measure (\<lambda>(tag, content). length content))" by simp
next
  fix tag content :: string and x :: "string \<times> string" and inner rest :: string
  assume t: "tag_body tag content = Some x" and x: "(inner, rest) = x"
  have len: "length a + length p + length b = length s"
    if "str_partition p s = Some (b, a)" for p s :: string and b a
    using that
  proof (induction s arbitrary: b)
    case Nil
    then show ?case by (simp split: if_splits)
  next
    case (Cons c cs)
    show ?case
    proof (cases "take (length p) (c # cs) = p")
      case True
      with Cons.prems have "b = []" "a = drop (length p) (c # cs)" by simp_all
      moreover from True have "length (take (length p) (c # cs)) = length p" by simp
      then have "length p \<le> length (c # cs)" by simp
      ultimately show ?thesis by simp
    next
      case False
      with Cons.prems obtain b' where "str_partition p cs = Some (b', a)" "b = c # b'"
        by (auto split: option.splits)
      with Cons.IH show ?thesis by simp
    qed
  qed
  from t x obtain b0 r0 where
    o: "str_partition (''<'' @ tag @ ''>'') content = Some (b0, r0)"
    and c: "str_partition (''</'' @ tag @ ''>'') r0 = Some (inner, rest)"
    by (auto simp: tag_body_def split: option.splits)
  from len [OF o] len [OF c] have "length rest < length content" by simp
  then show "((tag, rest), (tag, content)) \<in> measure (\<lambda>(tag, content). length content)" by simp
qed

definition is_word :: "char \<Rightarrow> bool" where
  "is_word c =
     (let n = of_char c :: nat
      in (48 \<le> n \<and> n \<le> 57) \<or> (65 \<le> n \<and> n \<le> 90) \<or> n = 95 \<or> (97 \<le> n \<and> n \<le> 122) \<or>
         n \<in> {170, 178, 179, 181, 185, 186, 188, 189, 190} \<or>
         (192 \<le> n \<and> n \<le> 214) \<or> (216 \<le> n \<and> n \<le> 246) \<or> (248 \<le> n \<and> n \<le> 255))"

definition starts_with :: "string \<Rightarrow> string \<Rightarrow> bool" where
  "starts_with s pre = (take (length pre) s = pre)"

definition ends_with :: "string \<Rightarrow> string \<Rightarrow> bool" where
  "ends_with s suf = (length suf \<le> length s \<and> drop (length s - length suf) s = suf)"

text \<open>\<open>re.sub(r"^```\w*\n?", "", s)\<close> for an \<open>s\<close> that starts with the fence.\<close>

definition drop_opening_fence :: "string \<Rightarrow> string" where
  "drop_opening_fence s =
     (let t = dropWhile is_word (drop 3 s)
      in if t \<noteq> [] \<and> hd t = CHR ''\<newline>'' then tl t else t)"

text \<open>\<open>re.sub(r"\n?```$", "", s)\<close>: \<open>$\<close> matches at the end of the string and before a
  final newline.\<close>

definition drop_closing_fence :: "string \<Rightarrow> string" where
  "drop_closing_fence s =
     (let (body, tail) = (if ends_with s ''```\<newline>'' then (take (length s - 1) s, ''\<newline>'') else (s, []))
      in if ends_with body ''```''
         then (let b = take (length body - 3) body
               in (if b \<noteq> [] \<and> last b = CHR ''\<newline>'' then butlast b else b) @ tail)
         else s)"

definition strip_backticks :: "string \<Rightarrow> string" where
  "strip_backticks text_in =
     (let s = strip text_in
      in if starts_with s ''```'' then strip (drop_closing_fence (drop_opening_fence s))
         else if starts_with s ''`'' \<and> ends_with s ''`'' then strip (butlast (tl s))
         else s)"

definition parse_actions :: "string \<Rightarrow> string list" where
  "parse_actions content =
     filter (\<lambda>a. a \<noteq> []) (map strip_backticks (all_tag_bodies ''action'' content))"

section \<open>The agent (llm\_ide\_agent.py)\<close>

text \<open>
  What lies outside the repository is a parameter, collected in \<open>Externals\<close>: the sandbox
  (\<open>env.execute\<close>, which returns output and return code or raises a timeout carrying
  partial output, and \<open>env.get_file\<close>) acting on a world state \<open>'w\<close>, the parser,
  \<open>json.loads\<close> followed by the field accesses of \<open>from_string\<close>, \<open>int\<close> on a string,
  base64 encoding, and the two rendered error templates. An operation of the agent returns
  the raised exception or its result, and in both cases the agent state, since an
  exception does not undo the assignments made before it.
\<close>


datatype exec_result = Completed string int | TimedOut string

record ToolResponse =
  package_name :: "string option"
  tr_output :: "string option"
  tr_returncode :: "int option"
  code_context :: "(string \<times> int option) list option"
  status :: "string option"

datatype json_result = NotJson | NotAnObject | JsonObject ToolResponse

record 'w Externals =
  env_execute :: "'w \<Rightarrow> string \<Rightarrow> exec_result \<times> 'w"
  env_get_file :: "'w \<Rightarrow> string \<Rightarrow> string"
  ts_parse :: "string \<Rightarrow> ts_node"
  json_loads :: "string \<Rightarrow> json_result"
  int_of_str :: "string \<Rightarrow> int option"
  b64encode :: "string \<Rightarrow> string"
  format_error_message :: string
  timeout_message :: "string \<Rightarrow> string"

record 'w Agent =
  action_manager :: ActionManager
  code_context_manager :: CodeContextManager
  installed_tools :: "(string \<times> string) list"
  n_operations :: nat
  world :: 'w

type_synonym ('a, 'w) outcome = "(error + 'a) \<times> 'w Agent"

definition then_do :: "('a, 'w) outcome \<Rightarrow> ('a \<Rightarrow> 'w Agent \<Rightarrow> ('b, 'w) outcome) \<Rightarrow> ('b, 'w) outcome" where
  "then_do r f = (case r of (Inl e, a) \<Rightarrow> (Inl e, a) | (Inr v, a) \<Rightarrow> f v a)"

definition run_env :: "'w Externals \<Rightarrow> string \<Rightarrow> 'w Agent \<Rightarrow> exec_result \<times> 'w Agent" where
  "run_env x command a =
     (case env_execute x (world a) command of (r, w) \<Rightarrow> (r, a\<lparr>world := w\<rparr>))"

definition env_execute_uncaught :: "'w Externals \<Rightarrow> string \<Rightarrow> 'w Agent \<Rightarrow> (string \<times> int, 'w) outcome" where
  "env_execute_uncaught x command a =
     (case run_env x command a of
        (TimedOut _, a1) \<Rightarrow> (Inl (Uncaught ''TimeoutError''), a1)
      | (Completed out rc, a1) \<Rightarrow> (Inr (out, rc), a1))"

definition get_git_diff :: "'w Externals \<Rightarrow> 'w Agent \<Rightarrow> (string, 'w) outcome" where
  "get_git_diff x a =
     then_do (env_execute_uncaught x ''git add -N .'' a) (\<lambda>_ a1.
     then_do (env_execute_uncaught x ''git --no-pager diff HEAD'' a1) (\<lambda>result a2.
       (Inr (if snd result \<noteq> 0 then [] else fst result), a2)))"

definition apply_patch :: "'w Externals \<Rightarrow> string \<Rightarrow> 'w Agent \<Rightarrow> (unit, 'w) outcome" where
  "apply_patch x diff a =
     then_do (env_execute_uncaught x
                (''printf '' @ [CHR 0x27] @ ''%s'' @ [CHR 0x27] @ '' '' @ [CHR 0x27] @ b64encode x diff @ [CHR 0x27] @
                 '' | base64 -d > /tmp/_vc_patch.diff && '' @
                 ''git apply --whitespace=nowarn /tmp/_vc_patch.diff ; '' @
                 ''rm -f /tmp/_vc_patch.diff'') a)
       (\<lambda>_ a1. (Inr (), a1))"

definition sync_version_control :: "'w Externals \<Rightarrow> 'w Agent \<Rightarrow> (unit, 'w) outcome" where
  "sync_version_control x a =
     (if \<not> has_real_current (action_manager a) then (Inr (), a)
      else
        (let node = current (action_manager a)
         in then_do (get_git_diff x a) (\<lambda>current_diff a1.
              if current_diff = code_change (heap (action_manager a1) node) then (Inr (), a1)
              else then_do (env_execute_uncaught x ''git reset --hard HEAD && git clean -fd'' a1) (\<lambda>_ a2.
                     if code_change (heap (action_manager a2) node) \<noteq> []
                     then apply_patch x (code_change (heap (action_manager a2) node)) a2
                     else (Inr (), a2)))))"

fun set_tool_status :: "string \<Rightarrow> string \<Rightarrow> (string \<times> string) list \<Rightarrow> (string \<times> string) list" where
  "set_tool_status pkg st [] = []"
| "set_tool_status pkg st ((name, old) # tools) =
     (if name = pkg then (name, st) # tools else (name, old) # set_tool_status pkg st tools)"

definition update_tool_status :: "'w Agent \<Rightarrow> 'w Agent" where
  "update_tool_status a =
     (if \<not> has_real_current (action_manager a) then a
      else
        a\<lparr>installed_tools :=
            fold (\<lambda>(pkg, st) tools. set_tool_status pkg st tools)
              (tool_status (heap (action_manager a) (current (action_manager a))))
              (installed_tools a)\<rparr>)"

definition process_reflection :: "'w Externals \<Rightarrow> string \<Rightarrow> 'w Agent \<Rightarrow> (unit, 'w) outcome" where
  "process_reflection x content a =
     (let decision = lower (strip (parse_tag content ''decision''));
          summary_text = parse_tag content ''summary'';
          lessons_text = parse_tag content ''lessons'';
          is_valid = (decision \<noteq> ''reject'');
          a1 = a\<lparr>action_manager := set_reflection is_valid lessons_text summary_text (action_manager a)\<rparr>
      in if is_valid
         then sync_version_control x
                (update_tool_status (a1\<lparr>action_manager := commit_admissible (action_manager a1)\<rparr>))
         else
           (let (overflow, am) = commit_invalid (action_manager a1);
                a2 = a1\<lparr>action_manager := am\<rparr>
            in if overflow then (Inl NotImplementedError, a2) else (Inr (), a2)))"

text \<open>
  A sandbox in which every command succeeds with empty output, and an agent with one
  committed node (address 1) and a pending temp node (address 2).
\<close>


definition quiet_externals :: "unit Externals" where
  "quiet_externals =
     \<lparr>env_execute = (\<lambda>w c. (Completed [] 0, w)), env_get_file = (\<lambda>w p. []),
      ts_parse = (\<lambda>c. TSNode ''module'' (0, 0) (0, 0) [] c []),
      json_loads = (\<lambda>s. NotJson), int_of_str = (\<lambda>s. None), b64encode = (\<lambda>s. s),
      format_error_message = ''Please provide an action.'',
      timeout_message = (\<lambda>out. ''The command timed out: '' @ out)\<rparr>"

definition pending_agent :: "unit Agent" where
  "pending_agent =
     \<lparr>action_manager = temp_then ''t2'' ''ls'' None (commit_node ''t1'' None (init 3)),
      code_context_manager = new_manager [], installed_tools = [], n_operations = 2, world = ()\<rparr>"

fun split_ws_from :: "string \<Rightarrow> string \<Rightarrow> string list" where
  "split_ws_from cur [] = (if cur = [] then [] else [cur])"
| "split_ws_from cur (c # cs) =
     (if is_space c then (if cur = [] then split_ws_from [] cs else cur # split_ws_from [] cs)
      else split_ws_from (cur @ [c]) cs)"

definition split_ws :: "string \<Rightarrow> string list" where
  "split_ws s = split_ws_from [] s"

definition update_node :: "ref \<Rightarrow> (OperationNode \<Rightarrow> OperationNode) \<Rightarrow> 'w Agent \<Rightarrow> 'w Agent" where
  "update_node n f a =
     a\<lparr>action_manager := (action_manager a)\<lparr>heap := (heap (action_manager a))(n := f (heap (action_manager a) n))\<rparr>\<rparr>"

definition handle_code_chunk :: "CodeChunk \<Rightarrow> 'w Agent \<Rightarrow> (string \<times> int) \<times> 'w Agent" where
  "handle_code_chunk chunk a =
     (let a1 = (case active_node (action_manager a) of
                  Some n \<Rightarrow> update_node n (\<lambda>node. node\<lparr>code_chunks := code_chunks node @ [chunk]\<rparr>) a
                | None \<Rightarrow> a)
      in if whole_function chunk
         then ((''Function '' @ function_name chunk @ '' in file '' @ file_path chunk @
                '' is added into the code context.'', 0), a1)
         else if lines chunk = [] then ((''No lines found for '' @ file_path chunk, 0), a1)
         else ((''Lines '' @ str_int (hd (lines chunk)) @ '' to '' @ str_int (last (lines chunk)) @
                '' of file '' @ file_path chunk @ '' are added into the code context.'', 0), a1))"

definition call_get_nearby ::
    "'w Externals \<Rightarrow> string \<Rightarrow> int \<Rightarrow> int \<Rightarrow> 'w Agent \<Rightarrow> CodeChunk \<times> 'w Agent" where
  "call_get_nearby x path line_number window_size a =
     (case get_nearby_code_context (env_get_file x (world a)) (ts_parse x) (code_context_manager a)
             path line_number window_size of
        (chunk, m) \<Rightarrow> (chunk, a\<lparr>code_context_manager := m\<rparr>))"

definition call_get_code_lines ::
    "'w Externals \<Rightarrow> string \<Rightarrow> int \<Rightarrow> int \<Rightarrow> 'w Agent \<Rightarrow> CodeChunk \<times> 'w Agent" where
  "call_get_code_lines x path start end_line a =
     (case get_code_lines (env_get_file x (world a)) (code_context_manager a) path start end_line of
        (chunk, m) \<Rightarrow> (chunk, a\<lparr>code_context_manager := m\<rparr>))"

text \<open>
  \<open>_run_builtin_tool\<close> with the two tools that \<open>_init_builtin_tools\<close> registers, in that
  order. The arguments are coerced one by one through the parameter annotations
  (\<open>str\<close>, \<open>int\<close>, \<open>int\<close>), as many as there are parts, and then the tool is called: a part
  that \<open>int\<close> rejects is a \<open>ValueError\<close>, a missing required argument a \<open>TypeError\<close>, and
  neither is caught.
\<close>

definition run_builtin_tool ::
    "'w Externals \<Rightarrow> string \<Rightarrow> 'w Agent \<Rightarrow> ((string \<times> int) option, 'w) outcome" where
  "run_builtin_tool x command a =
     (let stripped = strip command
      in if starts_with stripped ''get-nearby-code-context'' then
           (case split_ws (strip (drop (length ''get-nearby-code-context'') stripped)) of
              [] \<Rightarrow> (Inl (Uncaught ''TypeError''), a)
            | [p] \<Rightarrow> (Inl (Uncaught ''TypeError''), a)
            | p # l # rest \<Rightarrow>
                (case int_of_str x l of
                   None \<Rightarrow> (Inl (Uncaught ''ValueError''), a)
                 | Some line_number \<Rightarrow>
                     (case rest of
                        [] \<Rightarrow>
                          (case call_get_nearby x p line_number 100 a of
                             (chunk, a1) \<Rightarrow>
                               (case handle_code_chunk chunk a1 of (raw, a2) \<Rightarrow> (Inr (Some raw), a2)))
                      | w # _ \<Rightarrow>
                          (case int_of_str x w of
                             None \<Rightarrow> (Inl (Uncaught ''ValueError''), a)
                           | Some window_size \<Rightarrow>
                               (case call_get_nearby x p line_number window_size a of
                                  (chunk, a1) \<Rightarrow>
                                    (case handle_code_chunk chunk a1 of
                                       (raw, a2) \<Rightarrow> (Inr (Some raw), a2)))))))
         else if starts_with stripped ''get-code-lines'' then
           (case split_ws (strip (drop (length ''get-code-lines'') stripped)) of
              [] \<Rightarrow> (Inl (Uncaught ''TypeError''), a)
            | [p] \<Rightarrow> (Inl (Uncaught ''TypeError''), a)
            | p # s # rest \<Rightarrow>
                (case int_of_str x s of
                   None \<Rightarrow> (Inl (Uncaught ''ValueError''), a)
                 | Some start \<Rightarrow>
                     (case rest of
                        [] \<Rightarrow> (Inl (Uncaught ''TypeError''), a)
                      | e # _ \<Rightarrow>
                          (case int_of_str x e of
                             None \<Rightarrow> (Inl (Uncaught ''ValueError''), a)
                           | Some end_line \<Rightarrow>
                               (case call_get_code_lines x p start end_line a of
                                  (chunk, a1) \<Rightarrow>
                                    (case handle_code_chunk chunk a1 of
                                       (raw, a2) \<Rightarrow> (Inr (Some raw), a2)))))))
         else (Inr None, a))"

definition execute_command :: "'w Externals \<Rightarrow> string \<Rightarrow> 'w Agent \<Rightarrow> (string \<times> int, 'w) outcome" where
  "execute_command x command a =
     then_do (run_builtin_tool x command a) (\<lambda>builtin_result a1.
       case builtin_result of
         Some raw \<Rightarrow> (Inr raw, a1)
       | None \<Rightarrow>
           (case run_env x command a1 of
              (TimedOut output_text, a2) \<Rightarrow>
                (Inl (ExecutionTimeoutError (timeout_message x output_text)), a2)
            | (Completed out rc, a2) \<Rightarrow>
                (case check_submission out of
                   Inl e \<Rightarrow> (Inl e, a2)
                 | Inr _ \<Rightarrow> (Inr (out, rc), a2))))"

fun decode_tool_responses :: "'w Externals \<Rightarrow> string list \<Rightarrow> error + ToolResponse list" where
  "decode_tool_responses x [] = Inr []"
| "decode_tool_responses x (json_str # rest) =
     (case json_loads x json_str of
        NotJson \<Rightarrow> decode_tool_responses x rest
      | NotAnObject \<Rightarrow> Inl (Uncaught ''AttributeError'')
      | JsonObject tr \<Rightarrow>
          (case decode_tool_responses x rest of Inl e \<Rightarrow> Inl e | Inr trs \<Rightarrow> Inr (tr # trs)))"

definition from_string :: "'w Externals \<Rightarrow> string \<Rightarrow> error + ToolResponse list" where
  "from_string x raw_str =
     (let json_strs = map strip (all_tag_bodies ''tool-response'' raw_str)
      in decode_tool_responses x (if json_strs = [] then [raw_str] else json_strs))"

definition chunk_identity :: "CodeChunk \<Rightarrow> string \<times> string \<times> string \<times> bool \<times> int list" where
  "chunk_identity c = (file_path c, class_name c, function_name c, whole_function c, lines c)"

definition append_unique_code_chunk :: "CodeChunk list \<Rightarrow> CodeChunk \<Rightarrow> CodeChunk list" where
  "append_unique_code_chunk chunks chunk =
     (if chunk_identity chunk \<notin> chunk_identity ` set chunks then chunks @ [chunk] else chunks)"

definition attach_code_context_chunks ::
    "'w Externals \<Rightarrow> (string \<times> int option) list option \<Rightarrow> 'w Agent \<Rightarrow> 'w Agent" where
  "attach_code_context_chunks x code_contexts a =
     (case (code_contexts, active_node (action_manager a)) of
        (Some contexts, Some active) \<Rightarrow>
          fold (\<lambda>(path, line_number) a1.
                  case line_number of
                    None \<Rightarrow> a1
                  | Some line \<Rightarrow>
                      if path = [] \<or> line < 1 then a1
                      else (case call_get_nearby x path line 100 a1 of
                              (chunk, a2) \<Rightarrow>
                                update_node active
                                  (\<lambda>node. node\<lparr>code_chunks := append_unique_code_chunk (code_chunks node) chunk\<rparr>)
                                  a2))
            contexts a
      | _ \<Rightarrow> a)"

definition dict_set :: "string \<Rightarrow> string \<Rightarrow> (string \<times> string) list \<Rightarrow> (string \<times> string) list" where
  "dict_set k v d =
     (if k \<in> fst ` set d then map (\<lambda>(k', v'). if k' = k then (k', v) else (k', v')) d
      else d @ [(k, v)])"

definition apply_tool_status_updates :: "ToolResponse list \<Rightarrow> 'w Agent \<Rightarrow> 'w Agent" where
  "apply_tool_status_updates tool_responses a =
     (let active = active_node (action_manager a)
      in fold (\<lambda>tr a1.
                 case (package_name tr, status tr) of
                   (Some pkg, Some st) \<Rightarrow>
                     if pkg = [] then a1
                     else
                       (let a2 = (case active of
                                    Some n \<Rightarrow>
                                      update_node n (\<lambda>node. node\<lparr>tool_status := dict_set pkg st (tool_status node)\<rparr>) a1
                                  | None \<Rightarrow> a1)
                        in a2\<lparr>installed_tools := set_tool_status pkg st (installed_tools a2)\<rparr>)
                 | _ \<Rightarrow> a1)
           tool_responses a)"

definition process_tool_response ::
    "'w Externals \<Rightarrow> string \<times> int \<Rightarrow> 'w Agent \<Rightarrow> (string \<times> int, 'w) outcome" where
  "process_tool_response x raw a =
     (case from_string x (fst raw) of
        Inl e \<Rightarrow> (Inl e, a)
      | Inr tool_responses \<Rightarrow>
          if tool_responses = [] then (Inr (strip (fst raw), snd raw), a)
          else
            (let output_text =
                   join ''\<newline>'' (map (\<lambda>tr. case tr_output tr of Some s \<Rightarrow> s | None \<Rightarrow> []) tool_responses);
                 rc = (case tr_returncode (last tool_responses) of Some r \<Rightarrow> r | None \<Rightarrow> snd raw);
                 a1 = fold (\<lambda>tr. attach_code_context_chunks x (code_context tr)) tool_responses a;
                 a2 = apply_tool_status_updates tool_responses a1
             in (Inr (output_text, rc), a2)))"

fun execute_actions_loop ::
    "'w Externals \<Rightarrow> string list \<Rightarrow> ActionObservation list \<Rightarrow> int \<Rightarrow> 'w Agent
       \<Rightarrow> (ActionObservation list \<times> int, 'w) outcome" where
  "execute_actions_loop x [] obs last_returncode a = (Inr (obs, last_returncode), a)"
| "execute_actions_loop x (act # rest) obs last_returncode a =
     then_do (execute_command x act a) (\<lambda>raw a1.
     then_do (process_tool_response x raw a1) (\<lambda>result a2.
       (let obs1 = obs @ [ActionObservation act
                            (''[returncode: '' @ str_int (snd result) @ '']\<newline>'' @ strip (fst result))]
        in if snd result \<noteq> 0 then (Inr (obs1, snd result), a2)
           else execute_actions_loop x rest obs1 (snd result) a2)))"

definition execute_actions ::
    "'w Externals \<Rightarrow> string list \<Rightarrow> 'w Agent \<Rightarrow> (ActionObservation list \<times> int, 'w) outcome" where
  "execute_actions x actions a =
     then_do (execute_actions_loop x actions [] 0 a) (\<lambda>result a1.
       case active_node (action_manager a1) of
         None \<Rightarrow> (Inr result, a1)
       | Some active \<Rightarrow>
           then_do (get_git_diff x a1) (\<lambda>diff a2.
             (Inr result, update_node active (\<lambda>node. node\<lparr>code_change := diff\<rparr>) a2)))"

definition process_action ::
    "'w Externals \<Rightarrow> string \<Rightarrow> 'w Agent \<Rightarrow> (ActionObservation list \<times> int, 'w) outcome" where
  "process_action x content a =
     (let thoughts_text = parse_tag content ''thoughts'';
          actions = parse_actions content;
          action_text = join ''\<newline>'' actions;
          property_str = lower (strip (parse_tag content ''property''))
      in if actions = [] then (Inl (FormatError (format_error_message x)), a)
         else
           (let action_prop =
                  (if property_str = ''exploitative'' then Some EXPLOITATIVE
                   else if property_str = ''exploratory'' then Some EXPLORATORY else None)
            in case create_temp_node thoughts_text action_text action_prop (action_manager a) of
                 Inl e \<Rightarrow> (Inl e, a)
               | Inr (node, am) \<Rightarrow>
                   then_do (execute_actions x actions
                              (a\<lparr>action_manager := am, n_operations := Suc (n_operations a)\<rparr>))
                     (\<lambda>result a1.
                        (Inr result,
                         a1\<lparr>action_manager := set_observation (fst result) (action_manager a1)\<rparr>))))"

text \<open>
  What the execution of actions may do to the tree. \<open>annotates t am am'\<close>: the manager
  \<open>am'\<close> is \<open>am\<close> except for the fields \<open>code_chunks\<close>, \<open>tool_status\<close> and \<open>code_change\<close>
  of node \<open>t\<close>. \<open>touches_only\<close> adds that the operation counter is the same.
\<close>

definition annotates :: "ref \<Rightarrow> ActionManager \<Rightarrow> ActionManager \<Rightarrow> bool" where
  "annotates t am am' =
     (\<exists>cs ts cc. am' = am\<lparr>heap := (heap am)(t := (heap am t)
                               \<lparr>code_chunks := cs, tool_status := ts, code_change := cc\<rparr>)\<rparr>)"

definition touches_only :: "ref \<Rightarrow> 'w Agent \<Rightarrow> 'w Agent \<Rightarrow> bool" where
  "touches_only t a a' =
     (annotates t (action_manager a) (action_manager a') \<and> n_operations a' = n_operations a)"

text \<open>
  A sandbox in which \<open>sleep 100\<close> times out with partial output and every other command
  prints \<open>ok\<close>, and an agent that has done nothing yet.
\<close>

definition slow_externals :: "unit Externals" where
  "slow_externals =
     quiet_externals\<lparr>env_execute :=
       (\<lambda>w c. if c = ''sleep 100'' then (TimedOut ''partial'', w) else (Completed ''ok'' 0, w))\<rparr>"

definition fresh_agent :: "unit Agent" where
  "fresh_agent =
     \<lparr>action_manager = init 3, code_context_manager = new_manager [], installed_tools = [],
      n_operations = 0, world = ()\<rparr>"

section \<open>Properties of the tree\<close>

subsection \<open>Unfolding the loops one step at a time\<close>


lemma dead_child_walk_None: "dead_child_walk h target None = Some None"
  by (subst dead_child_walk.simps) simp

lemma dead_child_walk_Some:
  "dead_child_walk h target (Some n) =
     (if parent (h n) \<noteq> Some target then dead_child_walk h target (parent (h n)) else Some (Some n))"
  by (subst dead_child_walk.simps) simp

lemma find_exploratory_None: "find_exploratory h sent None = Some None"
  by (subst find_exploratory.simps) simp

lemma find_exploratory_Some:
  "find_exploratory h sent (Some n) =
     (if n = sent then Some None
      else if action_property (h n) = Some EXPLORATORY then Some (Some n)
      else find_exploratory h sent (parent (h n)))"
  by (subst find_exploratory.simps) simp

lemma chain_loop_first:
  "filter (\<lambda>c. children (h c) \<noteq> []) (live_children h node) \<noteq> [] \<Longrightarrow>
   chain_loop h node chain =
     chain_loop h (hd (filter (\<lambda>c. children (h c) \<noteq> []) (live_children h node))) (chain @ [node])"
  by (subst chain_loop.simps) (simp add: live_children_def Let_def)

lemma chain_loop_last:
  "filter (\<lambda>c. children (h c) \<noteq> []) (live_children h node) = [] \<Longrightarrow> live_children h node \<noteq> [] \<Longrightarrow>
   chain_loop h node chain = chain_loop h (last (live_children h node)) (chain @ [node])"
  by (subst chain_loop.simps) (simp add: live_children_def Let_def)

lemma chain_loop_leaf:
  "live_children h node = [] \<Longrightarrow> chain_loop h node chain = Some (chain @ [node])"
  by (subst chain_loop.simps) (simp add: live_children_def Let_def)




lemmas tree_run_defs =
  temp_then_def commit_node_def reject_node_def init_def create_temp_node_def commit_admissible_def
  commit_invalid_def backtrack_to_def new_node_def Let_def
  dead_child_walk_None dead_child_walk_Some find_exploratory_None find_exploratory_Some


subsection \<open>Creating a temp node while one is pending\<close>

text \<open>
  Claim C4, as amended: for every tree state, with or without a pending temp node,
  \<open>create_temp_node\<close> raises nothing. It allocates a fresh node with the given thoughts,
  action and property, makes it the pending temp node in place of any earlier one,
  appends it to \<open>_all_nodes\<close> and returns it; \<open>current\<close> is unchanged.
\<close>

theorem create_temp_node_replaces_pending:
  "\<exists>s'. create_temp_node t a p s = Inr (next_ref s, s') \<and>
        temp_node s' = Some (next_ref s) \<and>
        heap s' (next_ref s) = new_node t a p \<and>
        all_nodes s' = all_nodes s @ [next_ref s] \<and>
        current s' = current s"
  by (simp add: create_temp_node_def Let_def)

text \<open>
  Claim C4, as stated, fails: in \<open>pending_state\<close> a temp node (address 1) is pending,
  and a second \<open>create_temp_node\<close> does not fail; it returns normally and the pending node
  is now the new one (address 2).
\<close>

theorem create_temp_node_pending_no_failure:
  "temp_node pending_state = Some 1 \<and>
   \<not> isl (create_temp_node ''t2'' ''a2'' None pending_state) \<and>
   temp_node (snd (projr (create_temp_node ''t2'' ''a2'' None pending_state))) = Some 2"
  by (simp add: pending_state_def tree_run_defs)

subsection \<open>Rejecting the pending node\<close>

text \<open>
  Claim C7: in every tree state with a pending temp node \<open>t\<close>, \<open>commit_invalid\<close> appends \<open>t\<close>
  to \<open>current.invalid_ops\<close>, clears the temp node, leaves \<open>current\<close> where it is, and returns
  true iff the length of \<open>current.invalid_ops\<close> afterwards is at least \<open>max_invalid\<close>. In
  scenario S2 (\<open>max_invalid = 2\<close>, A committed and current, then two nodes rejected in a
  row, each created by \<open>create_temp_node\<close> first as in the repository's test) the first
  call returns false and the second true, \<open>A.invalid_ops\<close> has length 2 and \<open>current\<close> is
  still A.
\<close>

theorem commit_invalid_appends:
  "(temp_node s = Some t \<longrightarrow>
      invalid_ops (heap (snd (commit_invalid s)) (current s)) = invalid_ops (heap s (current s)) @ [t] \<and>
      temp_node (snd (commit_invalid s)) = None \<and>
      current (snd (commit_invalid s)) = current s \<and>
      fst (commit_invalid s) =
        (max_invalid s \<le> int (length (invalid_ops (heap (snd (commit_invalid s)) (current s)))))) \<and>
   (current s2_A = 1 \<and> \<not> fst s2_first \<and> fst s2_second \<and>
    length (invalid_ops (heap (snd s2_second) 1)) = 2 \<and> current (snd s2_second) = 1)"
  by (simp add: commit_invalid_def Let_def s2_A_def s2_first_def s2_second_def temp_then_def
        commit_node_def reject_node_def init_def create_temp_node_def commit_admissible_def new_node_def)

text \<open>Claim C7, witness: the first rejection of scenario S2, where the temp node is
  address 2 and A is address 1.\<close>

theorem commit_invalid_appends_witness:
  "temp_node (temp_then ''np1'' ''a'' None s2_A) = Some 2 \<and>
   invalid_ops (heap (snd (commit_invalid (temp_then ''np1'' ''a'' None s2_A))) 1) = [2] \<and>
   \<not> fst (commit_invalid (temp_then ''np1'' ''a'' None s2_A))"
  using commit_invalid_appends [of "temp_then ''np1'' ''a'' None s2_A" 2]
  by (simp add: s2_A_def temp_then_def commit_node_def init_def create_temp_node_def
        commit_admissible_def new_node_def Let_def)

subsection \<open>The reasoning chain on an arbitrary tree\<close>










lemma find_filter: "find P xs = (case filter P xs of [] \<Rightarrow> None | x # _ \<Rightarrow> Some x)"
  by (induction xs) auto

lemma chain_loop_next:
  "chain_loop h n acc =
     (case next_on_spine h n of None \<Rightarrow> Some (acc @ [n]) | Some m \<Rightarrow> chain_loop h m (acc @ [n]))"
proof (cases "filter (\<lambda>c. children (h c) \<noteq> []) (live_children h n)")
  case Nil
  then show ?thesis
    by (cases "live_children h n = []")
       (simp_all add: next_on_spine_def find_filter chain_loop_leaf chain_loop_last)
next
  case (Cons c cs)
  then show ?thesis
    using chain_loop_first [of h n acc] by (simp add: next_on_spine_def find_filter)
qed









subsection \<open>The reasoning chain on reachable trees\<close>


lemma link_live_children: "link h a n \<Longrightarrow> live_children h a = [n]"
proof -
  assume l: "link h a n"
  then have c: "children (h a) = butlast (children (h a)) @ [n]"
    by (metis append_butlast_last_id link_def)
  have "filter (\<lambda>c. \<not> dead_path (h c)) (butlast (children (h a)) @ [n]) = [n]"
    using l by (simp add: link_def)
  with c show ?thesis by (simp add: live_children_def)
qed

lemma link_next: "link h a n \<Longrightarrow> next_on_spine h a = Some n"
  by (simp add: next_on_spine_def link_live_children)

lemma tip_next: "\<forall>c \<in> set (children (h a)). dead_path (h c) \<Longrightarrow> next_on_spine h a = None"
  by (simp add: next_on_spine_def live_children_def)

lemma chain_loop_path:
  "successively (link h) (n # ns) \<Longrightarrow>
   \<forall>c \<in> set (children (h (last (n # ns)))). dead_path (h c) \<Longrightarrow>
   chain_loop h n acc = Some (acc @ n # ns)"
proof (induction ns arbitrary: n acc)
  case Nil
  then show ?case by (simp add: chain_loop_next tip_next)
next
  case (Cons m ms)
  from Cons.prems(1) have l: "link h n m" and s: "successively (link h) (m # ms)" by simp_all
  from Cons.prems(2) have t: "\<forall>c \<in> set (children (h (last (m # ms)))). dead_path (h c)" by simp
  show ?case using Cons.IH [OF s t, of "acc @ [n]"] link_next [OF l] by (simp add: chain_loop_next)
qed

lemma successively_link_live:
  "successively (link h) (a # p) \<Longrightarrow> n \<in> set p \<Longrightarrow> \<not> dead_path (h n)"
  by (induction p arbitrary: a) (auto simp: link_def)

lemma successively_link_mid:
  "successively (link h) (xs @ a # n # ys) \<Longrightarrow> link h a n"
  by (simp add: successively_append_iff)

lemma node_in_member: "x \<in> set xs \<Longrightarrow> node_in depth h x xs \<noteq> Some False"
  by (induction xs) (auto simp: item_eq_def split: option.splits bool.splits)

lemma tree_inv_chain:
  "tree_inv s p \<Longrightarrow>
   get_reasoning_chain depth s = Some (Inr p) \<or>
   get_reasoning_chain depth s = Some (Inl (Uncaught ''RecursionError''))"
proof (cases p)
  case Nil
  assume "tree_inv s p"
  with Nil show ?thesis by (simp add: tree_inv_def get_reasoning_chain_def)
next
  case (Cons n ns)
  assume i: "tree_inv s p"
  with Cons have l: "link (heap s) (sentinel s) n" by (simp add: tree_inv_def)
  from i Cons have c: "chain_loop (heap s) n [] = Some ([] @ n # ns)"
    by (intro chain_loop_path) (simp_all add: tree_inv_def)
  have f: "filter (\<lambda>c. \<not> dead_path (heap s c)) (children (heap s (sentinel s))) = [n]"
    using link_live_children [OF l] by (simp add: live_children_def)
  have "current s \<in> set (n # ns)" using i Cons by (simp add: tree_inv_def)
  then have "node_in depth (heap s) (current s) (n # ns) \<noteq> Some False" by (rule node_in_member)
  then show ?thesis using Cons c f
    by (cases "node_in depth (heap s) (current s) (n # ns)")
       (auto simp add: get_reasoning_chain_def simp del: node_in.simps)
qed

lemma link_heap:
  assumes "link h a n"
    and "children (h' a) = children (h a)" and "parent (h' n) = parent (h n)"
    and "\<And>c. c \<in> set (children (h a)) \<Longrightarrow> dead_path (h c) \<Longrightarrow> dead_path (h' c)"
    and "\<not> dead_path (h' n)"
  shows "link h' a n"
  using assms unfolding link_def by (auto dest: in_set_butlastD)

lemma successively_link_heap:
  assumes "successively (link h) xs"
    and "\<And>n. n \<in> set xs \<Longrightarrow> children (h' n) = children (h n) \<and> parent (h' n) = parent (h n) \<and> dead_path (h' n) = dead_path (h n)"
    and "\<And>n c. n \<in> set xs \<Longrightarrow> c \<in> set (children (h n)) \<Longrightarrow> dead_path (h c) \<Longrightarrow> dead_path (h' c)"
  shows "successively (link h') xs"
proof (rule successively_mono [OF assms(1)])
  fix x y assume x: "x \<in> set xs" and y: "y \<in> set xs" and l: "link h x y"
  show "link h' x y"
  proof (rule link_heap [OF l])
    show "children (h' x) = children (h x)" using assms(2) x by simp
    show "parent (h' y) = parent (h y)" using assms(2) y by simp
    show "\<And>c. c \<in> set (children (h x)) \<Longrightarrow> dead_path (h c) \<Longrightarrow> dead_path (h' c)" using assms(3) x by blast
    show "\<not> dead_path (h' y)" using assms(2) y l by (simp add: link_def)
  qed
qed

lemma tree_inv_current: "tree_inv s p \<Longrightarrow> current s \<in> set (sentinel s # p)"
  unfolding tree_inv_def by (metis last_in_set list.distinct(1))

lemma tree_inv_init: "tree_inv (init m) []"
  by (simp add: tree_inv_def init_def new_node_def)

lemma tree_inv_create:
  assumes "tree_inv s p" and "create_temp_node t a pr s = Inr (n, s')"
  shows "tree_inv s' p"
proof -
  let ?h' = "(heap s)(next_ref s := new_node t a pr)"
  from assms(2) have s': "s' = s\<lparr>heap := ?h', temp_node := Some (next_ref s),
      all_nodes := all_nodes s @ [next_ref s], next_ref := Suc (next_ref s)\<rparr>"
    by (auto simp add: create_temp_node_def Let_def)
  from assms(1) have b: "\<forall>n \<in> set (sentinel s # p). n < next_ref s \<and> (\<forall>c \<in> set (children (heap s n)). c < next_ref s)"
    by (simp add: tree_inv_def)
  have "successively (link ?h') (sentinel s # p)"
  proof (rule successively_link_heap)
    show "successively (link (heap s)) (sentinel s # p)" using assms(1) by (simp add: tree_inv_def)
  next
    fix n assume "n \<in> set (sentinel s # p)"
    with b have "n \<noteq> next_ref s" by auto
    then show "children (?h' n) = children (heap s n) \<and> parent (?h' n) = parent (heap s n) \<and> dead_path (?h' n) = dead_path (heap s n)"
      by simp
  next
    fix n c assume "n \<in> set (sentinel s # p)" "c \<in> set (children (heap s n))" "dead_path (heap s c)"
    with b have "c \<noteq> next_ref s" by auto
    with \<open>dead_path (heap s c)\<close> show "dead_path (?h' c)" by simp
  qed
  moreover have "sentinel s \<noteq> next_ref s" "current s \<noteq> next_ref s"
    using b tree_inv_current [OF assms(1)] by auto
  moreover have "\<forall>c \<in> set (children (heap s (current s))). c \<noteq> next_ref s"
    using b tree_inv_current [OF assms(1)] by (metis nat_neq_iff)
  ultimately show ?thesis using assms(1) b unfolding s' tree_inv_def
    by (auto simp: new_node_def less_Suc_eq)
qed

lemma tree_inv_fields:
  assumes "tree_inv s p"
    and "\<And>n. children (h' n) = children (heap s n) \<and> dead_path (h' n) = dead_path (heap s n)"
    and "\<And>n. n \<in> set (sentinel s # p) \<Longrightarrow> parent (h' n) = parent (heap s n)"
  shows "tree_inv (s\<lparr>heap := h'\<rparr>) p"
proof -
  have "successively (link h') (sentinel s # p)"
    by (rule successively_link_heap [where h = "heap s"]) (use assms in \<open>auto simp: tree_inv_def\<close>)
  then show ?thesis using assms unfolding tree_inv_def by auto
qed

lemma tree_inv_clear_temp: "tree_inv s p \<Longrightarrow> tree_inv (s\<lparr>temp_node := None\<rparr>) p"
  by (simp add: tree_inv_def)

lemma tree_inv_observation: "tree_inv s p \<Longrightarrow> tree_inv (set_observation obs s) p"
proof (cases "temp_node s")
  case None
  assume "tree_inv s p" with None show ?thesis by (simp add: set_observation_def)
next
  case (Some t)
  assume i: "tree_inv s p"
  have "tree_inv (s\<lparr>heap := (heap s)(t := (heap s t)\<lparr>observations := obs\<rparr>)\<rparr>) p"
    by (rule tree_inv_fields [OF i]) simp_all
  with Some show ?thesis by (simp add: set_observation_def)
qed

lemma tree_inv_reflection: "tree_inv s p \<Longrightarrow> tree_inv (set_reflection v l sm s) p"
proof (cases "temp_node s")
  case None
  assume "tree_inv s p" with None show ?thesis by (simp add: set_reflection_def)
next
  case (Some t)
  assume i: "tree_inv s p"
  have "tree_inv (s\<lparr>heap := (heap s)(t := (heap s t)\<lparr>valid := Some v, lessons := l, summary := sm\<rparr>)\<rparr>) p"
    by (rule tree_inv_fields [OF i]) simp_all
  with Some show ?thesis by (simp add: set_reflection_def)
qed

lemma tree_inv_invalid: "tree_inv s p \<Longrightarrow> tree_inv (snd (commit_invalid s)) p"
proof (cases "temp_node s")
  case None
  assume "tree_inv s p" with None show ?thesis by (simp add: commit_invalid_def)
next
  case (Some t)
  assume i: "tree_inv s p"
  let ?h1 = "(heap s)(t := (heap s t)\<lparr>parent := Some (current s)\<rparr>)"
  let ?h2 = "?h1(current s := (?h1 (current s))\<lparr>invalid_ops := invalid_ops (?h1 (current s)) @ [t]\<rparr>)"
  from i Some have tn: "t \<notin> set (sentinel s # p)" by (simp add: tree_inv_def)
  have "tree_inv (s\<lparr>heap := ?h2\<rparr>) p"
    by (rule tree_inv_fields [OF i]) (use tn in auto)
  then have "tree_inv (s\<lparr>heap := ?h2, temp_node := None\<rparr>) p"
    by (rule tree_inv_clear_temp)
  with Some show ?thesis by (simp add: commit_invalid_def Let_def)
qed

lemma successively_snoc:
  "successively P (xs @ [x]) \<longleftrightarrow> successively P xs \<and> (xs = [] \<or> P (last xs) x)"
  by (simp add: successively_append_iff)

lemma tree_inv_admissible: "tree_inv s p \<Longrightarrow> \<exists>p'. tree_inv (commit_admissible s) p'"
proof (cases "temp_node s")
  case None
  assume "tree_inv s p" with None show ?thesis by (auto simp: commit_admissible_def)
next
  case (Some t)
  assume i: "tree_inv s p"
  define h where "h = heap s"
  define h2 where "h2 = (h(t := (h t)\<lparr>parent := Some (current s)\<rparr>))
     (current s := ((h(t := (h t)\<lparr>parent := Some (current s)\<rparr>)) (current s))
        \<lparr>children := children ((h(t := (h t)\<lparr>parent := Some (current s)\<rparr>)) (current s)) @ [t]\<rparr>)"
  have res: "commit_admissible s = s\<lparr>heap := h2, current := t, temp_node := None\<rparr>"
    using Some by (simp add: commit_admissible_def Let_def h2_def h_def)
  from i Some have tn: "t \<notin> set (sentinel s # p)" and tl: "t < next_ref s"
    and tc: "children (h t) = []" and td: "\<not> dead_path (h t)"
    by (simp_all add: tree_inv_def h_def)
  have cur: "current s \<in> set (sentinel s # p)" by (rule tree_inv_current [OF i])
  with tn have ct: "current s \<noteq> t" by auto
  from i have tip: "\<forall>c \<in> set (children (h (current s))). dead_path (h c)"
    by (simp add: tree_inv_def h_def)
  have dead: "\<And>n. dead_path (h2 n) = dead_path (h n)" by (simp add: h2_def)
  have ch: "\<And>n. n \<noteq> current s \<Longrightarrow> children (h2 n) = children (h n)" by (simp add: h2_def)
  have chc: "children (h2 (current s)) = children (h (current s)) @ [t]"
    using ct by (simp add: h2_def)
  have par: "\<And>n. n \<noteq> t \<Longrightarrow> parent (h2 n) = parent (h n)" by (simp add: h2_def)
  have part: "parent (h2 t) = Some (current s)" using ct by (simp add: h2_def)
  have old: "successively (link h) (sentinel s # p)" using i by (simp add: tree_inv_def h_def)
  have "successively (link h2) (sentinel s # p)"
  proof (rule successively_mono [OF old])
    fix x y assume x: "x \<in> set (sentinel s # p)" and y: "y \<in> set (sentinel s # p)"
      and l: "link h x y"
    have "x \<noteq> current s"
    proof
      assume "x = current s"
      with l have "y \<in> set (children (h (current s)))" "\<not> dead_path (h y)"
        by (auto simp: link_def)
      with tip show False by blast
    qed
    moreover have "y \<noteq> t" using y tn by auto
    moreover have "\<not> dead_path (h2 y)" using l by (simp add: link_def dead)
    ultimately show "link h2 x y" using link_heap [OF l, of h2] by (simp add: ch par dead)
  qed
  moreover have "link h2 (current s) t"
    using tip td by (simp add: link_def chc part dead)
  moreover have "last (sentinel s # p) = current s" using i by (simp add: tree_inv_def)
  ultimately have succ: "successively (link h2) ((sentinel s # p) @ [t])"
    unfolding successively_snoc by metis
  have bound: "\<forall>n \<in> set (sentinel s # p @ [t]). n < next_ref s \<and> (\<forall>c \<in> set (children (h2 n)). c < next_ref s)"
  proof
    fix n assume n: "n \<in> set (sentinel s # p @ [t])"
    from i have b: "\<forall>n \<in> set (sentinel s # p). n < next_ref s \<and> (\<forall>c \<in> set (children (h n)). c < next_ref s)"
      by (simp add: tree_inv_def h_def)
    show "n < next_ref s \<and> (\<forall>c \<in> set (children (h2 n)). c < next_ref s)"
    proof (cases "n = current s")
      case True
      with b cur tl show ?thesis by (auto simp: chc)
    next
      case False
      with n b tl tc show ?thesis by (cases "n = t") (auto simp: ch)
    qed
  qed
  have "tree_inv (s\<lparr>heap := h2, current := t, temp_node := None\<rparr>) (p @ [t])"
    unfolding tree_inv_def
  proof (intro conjI)
    show "successively (link (heap (s\<lparr>heap := h2, current := t, temp_node := None\<rparr>)))
            (sentinel (s\<lparr>heap := h2, current := t, temp_node := None\<rparr>) # p @ [t])"
      using succ by simp
    show "\<forall>n\<in>set (sentinel (s\<lparr>heap := h2, current := t, temp_node := None\<rparr>) # p @ [t]).
       n < next_ref (s\<lparr>heap := h2, current := t, temp_node := None\<rparr>) \<and>
       (\<forall>c\<in>set (children (heap (s\<lparr>heap := h2, current := t, temp_node := None\<rparr>) n)).
           c < next_ref (s\<lparr>heap := h2, current := t, temp_node := None\<rparr>))"
      using bound by simp
    show "parent (heap (s\<lparr>heap := h2, current := t, temp_node := None\<rparr>)
                   (sentinel (s\<lparr>heap := h2, current := t, temp_node := None\<rparr>))) = None"
      using i tn by (simp add: par tree_inv_def h_def)
    show "\<forall>c\<in>set (children (heap (s\<lparr>heap := h2, current := t, temp_node := None\<rparr>)
                        (current (s\<lparr>heap := h2, current := t, temp_node := None\<rparr>)))).
       dead_path (heap (s\<lparr>heap := h2, current := t, temp_node := None\<rparr>) c)"
      using ct tc by (simp add: ch)
  qed (use i tn in \<open>simp_all add: tree_inv_def\<close>)
  with res show ?thesis by auto
qed

lemma find_exploratory_path:
  "successively (link h) (sent # p) \<Longrightarrow> distinct (sent # p) \<Longrightarrow>
   find_exploratory h sent (Some (last (sent # p))) = Some None \<or>
   (\<exists>t \<in> set p. find_exploratory h sent (Some (last (sent # p))) = Some (Some t))"
proof (induction p rule: rev_induct)
  case Nil
  show ?case by (simp add: find_exploratory_Some)
next
  case (snoc x q)
  from snoc.prems have s: "successively (link h) (sent # q)" and d: "distinct (sent # q)"
    and l: "link h (last (sent # q)) x" and x: "x \<noteq> sent"
    by (auto simp: successively_append_iff simp flip: append_Cons)
  from l have px: "parent (h x) = Some (last (sent # q))" by (simp add: link_def)
  show ?case
  proof (cases "action_property (h x) = Some EXPLORATORY")
    case True
    with x show ?thesis by (simp add: find_exploratory_Some)
  next
    case False
    with x px have "find_exploratory h sent (Some (last (sent # q @ [x])))
        = find_exploratory h sent (Some (last (sent # q)))"
      by (simp add: find_exploratory_Some)
    with snoc.IH [OF s d] show ?thesis by auto
  qed
qed

lemma find_backtrack_target_path:
  assumes "tree_inv s p" and "find_backtrack_target s = Some (Some target)"
  shows "\<exists>p1 c p2. p = p1 @ target # c # p2"
proof (cases p rule: rev_cases)
  case Nil
  with assms show ?thesis
    by (simp add: tree_inv_def find_backtrack_target_def find_exploratory_None)
next
  case (snoc q x)
  from assms(1) snoc have s: "successively (link (heap s)) (sentinel s # q)"
    and d: "distinct (sentinel s # q)" and l: "link (heap s) (last (sentinel s # q)) x"
    and c: "current s = x"
    by (auto simp: tree_inv_def successively_append_iff simp flip: append_Cons)
  from l c have "parent (heap s (current s)) = Some (last (sentinel s # q))" by (simp add: link_def)
  with assms(2) have "find_exploratory (heap s) (sentinel s) (Some (last (sentinel s # q))) = Some (Some target)"
    by (simp add: find_backtrack_target_def)
  with find_exploratory_path [OF s d] have "target \<in> set q" by auto
  then obtain p1 r where "q = p1 @ target # r" by (auto simp: in_set_conv_decomp)
  with snoc show ?thesis by (cases r) auto
qed

lemma dead_child_walk_path:
  "successively (link h) (xs @ target # c # p2) \<Longrightarrow> distinct (xs @ target # c # p2) \<Longrightarrow>
   dead_child_walk h target (Some (last (c # p2))) = Some (Some c)"
proof (induction p2 rule: rev_induct)
  case Nil
  from successively_link_mid [OF Nil(1)] show ?case by (simp add: dead_child_walk_Some link_def)
next
  case (snoc x q)
  from snoc.prems(1) have s: "successively (link h) (xs @ target # c # q)"
    and l: "link h (last (c # q)) x"
    by (auto simp: successively_append_iff simp flip: append_Cons append_assoc
             simp del: successively.simps append.simps split: if_splits)
  from snoc.prems(2) have d: "distinct (xs @ target # c # q)" and "last (c # q) \<noteq> target"
    by auto
  with l have "dead_child_walk h target (Some (last (c # q @ [x])))
      = dead_child_walk h target (Some (last (c # q)))"
    by (simp add: dead_child_walk_Some link_def)
  with snoc.IH [OF s d] show ?case by simp
qed

lemma tree_inv_backtrack:
  assumes i: "tree_inv s p" and f: "find_backtrack_target s = Some (Some target)"
    and b: "backtrack_to target d s = Some s'"
  shows "\<exists>p'. tree_inv s' p'"
proof -
  from find_backtrack_target_path [OF i f] obtain p1 c p2 where p: "p = p1 @ target # c # p2"
    by blast
  define h where "h = heap s"
  define pre where "pre = sentinel s # p1 @ [target]"
  have whole: "sentinel s # p = pre @ c # p2" by (simp add: p pre_def)
  have old: "successively (link h) (pre @ c # p2)" and dist: "distinct (pre @ c # p2)"
    and cur: "current s = last (c # p2)"
    using i unfolding whole [symmetric] h_def by (simp_all add: tree_inv_def p)
  have walk: "dead_child_walk h target (Some (current s)) = Some (Some c)"
    unfolding cur
  proof (rule dead_child_walk_path)
    show "successively (link h) ((sentinel s # p1) @ target # c # p2)" using old by (simp add: pre_def)
    show "distinct ((sentinel s # p1) @ target # c # p2)" using dist by (simp add: pre_def)
  qed
  define h2 where "h2 = (h(c := (h c)\<lparr>dead_path := True\<rparr>))
     (target := ((h(c := (h c)\<lparr>dead_path := True\<rparr>)) target)
        \<lparr>dead_path_summaries := dead_path_summaries ((h(c := (h c)\<lparr>dead_path := True\<rparr>)) target) @ [d]\<rparr>)"
  have s': "s' = s\<lparr>heap := h2, current := target\<rparr>"
    using b walk by (simp add: backtrack_to_def Let_def h_def h2_def)
  have ch: "\<And>n. children (h2 n) = children (h n)" by (simp add: h2_def)
  have par: "\<And>n. parent (h2 n) = parent (h n)" by (simp add: h2_def)
  have dead: "\<And>n. dead_path (h2 n) = (n = c \<or> dead_path (h n))" by (simp add: h2_def)
  have "successively (link h) ((sentinel s # p1) @ target # c # p2)" using old by (simp add: pre_def)
  then have lk: "link h target c" by (rule successively_link_mid)
  have cpre: "c \<notin> set pre" using dist by auto
  have "successively (link h) pre" using old by (simp add: successively_append_iff)
  then have succ: "successively (link h2) pre"
  proof (rule successively_mono)
    fix x y assume "x \<in> set pre" and y: "y \<in> set pre" and l: "link h x y"
    have "\<not> dead_path (h2 y)" using y cpre l by (auto simp: dead link_def)
    then show "link h2 x y" using link_heap [OF l, of h2] by (simp add: ch par dead)
  qed
  have tip: "\<forall>x \<in> set (children (h2 target)). dead_path (h2 x)"
  proof
    fix x assume "x \<in> set (children (h2 target))"
    then have "x \<in> set (children (h target))" by (simp add: ch)
    moreover have "children (h target) = butlast (children (h target)) @ [c]"
      using lk unfolding link_def by (metis append_butlast_last_id)
    ultimately have "x = c \<or> x \<in> set (butlast (children (h target)))"
      by (metis Un_iff empty_iff empty_set insert_iff list.simps(15) set_append)
    then show "dead_path (h2 x)" using lk by (auto simp: dead link_def)
  qed
  have "tree_inv (s\<lparr>heap := h2, current := target\<rparr>) (p1 @ [target])"
    unfolding tree_inv_def
  proof (intro conjI)
    show "successively (link (heap (s\<lparr>heap := h2, current := target\<rparr>)))
            (sentinel (s\<lparr>heap := h2, current := target\<rparr>) # p1 @ [target])"
      using succ by (simp add: pre_def)
    show "\<forall>c\<in>set (children (heap (s\<lparr>heap := h2, current := target\<rparr>)
                        (current (s\<lparr>heap := h2, current := target\<rparr>)))).
       dead_path (heap (s\<lparr>heap := h2, current := target\<rparr>) c)"
      using tip by simp
    show "\<forall>t. temp_node (s\<lparr>heap := h2, current := target\<rparr>) = Some t \<longrightarrow>
        t < next_ref (s\<lparr>heap := h2, current := target\<rparr>) \<and>
        t \<notin> set (sentinel (s\<lparr>heap := h2, current := target\<rparr>) # p1 @ [target]) \<and>
        children (heap (s\<lparr>heap := h2, current := target\<rparr>) t) = [] \<and>
        \<not> dead_path (heap (s\<lparr>heap := h2, current := target\<rparr>) t)"
      using i by (auto simp: tree_inv_def p ch dead h_def)
  qed (use i in \<open>auto simp: tree_inv_def p ch par h_def\<close>)
  with s' show ?thesis by auto
qed

lemma reachable_tree_inv: "reachable s \<Longrightarrow> \<exists>p. tree_inv s p"
proof (induction rule: reachable.induct)
  case (r_init m)
  show ?case using tree_inv_init by blast
next
  case (r_create s t a p n s')
  then show ?case using tree_inv_create by blast
next
  case (r_admissible s)
  then show ?case using tree_inv_admissible by blast
next
  case (r_invalid s)
  then show ?case using tree_inv_invalid by blast
next
  case (r_observation s obs)
  then show ?case using tree_inv_observation by blast
next
  case (r_reflection s v l sm)
  then show ?case using tree_inv_reflection by blast
next
  case (r_backtrack s target dps s')
  then show ?case using tree_inv_backtrack by blast
qed

text \<open>
  In every tree state reachable by the operations (creating, observing, reflecting on,
  committing and rejecting nodes, and backtracking to the target that
  \<open>find_backtrack_target\<close> returns), \<open>current\<close> is the last node of the spine. So the
  membership test of \<open>get_reasoning_chain\<close> never appends anything: either it raises
  \<open>RecursionError\<close>, or the call returns the spine, which contains no node whose
  \<open>dead_path\<close> flag is set, is empty or starts at a child of the root sentinel, and ends
  at \<open>current\<close> whenever \<open>current\<close> is not the sentinel.
\<close>

lemma reachable_chain_unless_recursion_error:
  "reachable s \<Longrightarrow>
   get_reasoning_chain depth s = Some (Inl (Uncaught ''RecursionError'')) \<or>
   (\<exists>chain. get_reasoning_chain depth s = Some (Inr chain) \<and>
     (\<forall>n \<in> set chain. \<not> dead_path (heap s n)) \<and>
     (chain = [] \<or> hd chain \<in> set (children (heap s (sentinel s)))) \<and>
     (current s \<noteq> sentinel s \<longrightarrow> chain \<noteq> [] \<and> last chain = current s))"
proof -
  assume "reachable s"
  then obtain p where i: "tree_inv s p" using reachable_tree_inv by blast
  have s: "successively (link (heap s)) (sentinel s # p)" using i by (simp add: tree_inv_def)
  have "\<forall>n \<in> set p. \<not> dead_path (heap s n)" using successively_link_live [OF s] by blast
  moreover have "p = [] \<or> hd p \<in> set (children (heap s (sentinel s)))"
  proof (cases p)
    case (Cons n ns)
    with s have "link (heap s) (sentinel s) n" by simp
    then have "n \<in> set (children (heap s (sentinel s)))" unfolding link_def by (metis last_in_set)
    with Cons show ?thesis by simp
  qed simp
  moreover have "current s \<noteq> sentinel s \<longrightarrow> p \<noteq> [] \<and> last p = current s"
    using i by (auto simp: tree_inv_def)
  ultimately show ?thesis using tree_inv_chain [OF i, of depth] by blast
qed

lemma reachable_commit_node: "reachable s \<Longrightarrow> reachable (commit_node t p s)"
proof -
  assume r: "reachable s"
  obtain n s' where c: "create_temp_node t [] p s = Inr (n, s')"
    by (simp add: create_temp_node_def Let_def)
  then have "reachable s'" using r r_create by blast
  then have "reachable (commit_admissible s')" by (rule r_admissible)
  with c show ?thesis by (simp add: commit_node_def temp_then_def)
qed

lemma reachable_reject_node: "reachable s \<Longrightarrow> reachable (snd (reject_node t s))"
proof -
  assume r: "reachable s"
  obtain n s' where c: "create_temp_node t ''a'' None s = Inr (n, s')"
    by (simp add: create_temp_node_def Let_def)
  then have "reachable s'" using r r_create by blast
  then have "reachable (snd (commit_invalid s'))" by (rule r_invalid)
  with c show ?thesis by (simp add: reject_node_def temp_then_def)
qed

text \<open>
  On \<open>linear_three\<close> the call returns the chain of the three nodes, as the test asserts.
  The three nodes and the sentinel carry the same data, and the comparison of the third
  node with the second goes up the parents to the sentinel, three calls deep.
\<close>

lemma linear_three_heap:
  "sentinel linear_three = 0" "current linear_three = 3"
  "children (heap linear_three 0) = [Suc 0]"
  "children (heap linear_three (Suc 0)) = [2]"
  "children (heap linear_three 2) = [3]"
  "children (heap linear_three 3) = []"
  "\<not> dead_path (heap linear_three (Suc 0))"
  "\<not> dead_path (heap linear_three 2)"
  "\<not> dead_path (heap linear_three 3)"
  "invalid_ops (heap linear_three n) = []"
  "parent (heap linear_three 0) = None"
  "parent (heap linear_three (Suc 0)) = Some 0"
  "parent (heap linear_three 2) = Some (Suc 0)"
  "parent (heap linear_three 3) = Some 2"
  "data_eq (heap linear_three n) (heap linear_three k)"
  by (simp_all add: linear_three_def tree_run_defs data_eq_def dict_eq_def)

lemma linear_three_chain:
  "get_reasoning_chain (Suc (Suc (Suc depth))) linear_three = Some (Inr [1, 2, 3])"
proof -
  have c: "chain_loop (heap linear_three) (Suc 0) [] = Some [Suc 0, 2, 3]"
    by (simp add: linear_three_heap live_children_def chain_loop_first chain_loop_last
        chain_loop_leaf)
  have "node_in (Suc (Suc (Suc depth))) (heap linear_three) 3 [Suc 0, 2, 3] = Some True"
    by (simp add: linear_three_heap item_eq_def nodes_eq_def)
  with c show ?thesis
    by (simp add: get_reasoning_chain_def has_real_current_def linear_three_heap
        del: node_in.simps)
qed

lemma repeated_steps_reachable: "reachable repeated_steps"
  unfolding repeated_steps_def
  by (intro reachable_reject_node reachable_commit_node r_init)

lemma repeated_steps_heap:
  "sentinel repeated_steps = 0" "current repeated_steps = 3"
  "children (heap repeated_steps 0) = [Suc 0]"
  "children (heap repeated_steps (Suc 0)) = [3]"
  "children (heap repeated_steps 3) = []"
  "\<not> dead_path (heap repeated_steps (Suc 0))"
  "\<not> dead_path (heap repeated_steps 3)"
  "invalid_ops (heap repeated_steps (Suc 0)) = [2]"
  "invalid_ops (heap repeated_steps 3) = [4]"
  "invalid_ops (heap repeated_steps 2) = []"
  "invalid_ops (heap repeated_steps 4) = []"
  "parent (heap repeated_steps 2) = Some (Suc 0)"
  "parent (heap repeated_steps 4) = Some 3"
  "data_eq (heap repeated_steps (Suc 0)) (heap repeated_steps 3)"
  "data_eq (heap repeated_steps 2) (heap repeated_steps 4)"
  by (simp_all add: repeated_steps_def tree_run_defs data_eq_def dict_eq_def)

lemma repeated_steps_eq_endless:
  "node_eq depth (heap repeated_steps) 1 3 = None \<and>
   node_eq depth (heap repeated_steps) 2 4 = None"
proof (induction depth)
  case 0
  show ?case by simp
next
  case (Suc depth)
  have a: "node_eq (Suc depth) (heap repeated_steps) 1 3 = None"
    using Suc by (simp add: repeated_steps_heap nodes_eq_def item_eq_def)
  have b: "node_eq (Suc depth) (heap repeated_steps) 2 4 = None"
    using Suc by (simp add: repeated_steps_heap nodes_eq_def item_eq_def)
  from a b show ?case by simp
qed

lemma repeated_steps_spine:
  "chain_loop (heap repeated_steps) 1 [] = Some [1, 3]"
  by (simp add: repeated_steps_heap live_children_def chain_loop_last chain_loop_leaf)

text \<open>
  Claim C5 at \<open>repeated_steps\<close>, a state reached by commits and rejections only. The
  spine is \<open>[A, B]\<close> and \<open>current\<close> is B. The test \<open>self.current not in chain\<close> compares
  B with A first. They carry the same data, so their \<open>invalid_ops\<close> are compared, which
  hold one rejected node each, with the same data; the parents of these are A and B
  again. The comparison never ends: whatever the recursion limit, the call raises
  \<open>RecursionError\<close> and returns no chain, where the claim promises a list that ends at
  \<open>current\<close>.
\<close>

theorem reasoning_chain_recursion_error:
  "reachable repeated_steps \<and>
   current repeated_steps \<noteq> sentinel repeated_steps \<and>
   (\<forall>depth. get_reasoning_chain depth repeated_steps = Some (Inl (Uncaught ''RecursionError'')))"
proof -
  have "node_in depth (heap repeated_steps) 3 [1, 3] = None" for depth
    using repeated_steps_eq_endless [of depth] by (simp add: item_eq_def)
  then have "get_reasoning_chain depth repeated_steps = Some (Inl (Uncaught ''RecursionError''))"
    for depth
    using repeated_steps_spine
    by (simp add: get_reasoning_chain_def has_real_current_def repeated_steps_heap
        del: node_in.simps)
  then show ?thesis
    using repeated_steps_reachable by (simp add: repeated_steps_heap)
qed

section \<open>Properties of the submission check\<close>

lemma char_of_eq_iff: "(char_of (n::nat) = c) = (n mod 256 = of_char c)"
  by (metis of_char_of char_of_char)

lemma linebreak_space: "is_linebreak c \<Longrightarrow> is_space c"
  by (auto simp: is_linebreak_def is_space_def)

lemma strip_space_Cons: "is_space c \<Longrightarrow> strip (c # l) = strip l"
  by (simp add: strip_def lstrip_def)

lemma blank_space_Cons: "is_space c \<Longrightarrow> blank (c # l) = blank l"
  by (simp add: blank_def strip_space_Cons)

lemma blank_single: "is_space c \<Longrightarrow> blank [c]"
  by (simp add: blank_def strip_def lstrip_def rstrip_def)

lemma blank_two: "is_space c \<Longrightarrow> is_space d \<Longrightarrow> blank [c, d]"
  by (simp add: blank_def strip_def lstrip_def rstrip_def)

lemma not_blank_Cons: "\<not> is_space c \<Longrightarrow> \<not> blank (c # l)"
  by (simp add: blank_def strip_def lstrip_def rstrip_def dropWhile_append)

lemma LF_linebreak: "is_linebreak (CHR 0x0A)"
  by (simp add: is_linebreak_def)

lemma claimed_submission_space:
  assumes "is_space c"
  shows "claimed_submission (c # cs) = claimed_submission cs"
proof (cases "is_linebreak c")
  case True
  show ?thesis
  proof (cases "c = CHR 0x0D \<and> cs \<noteq> [] \<and> hd cs = CHR 0x0A")
    case crlf: True
    then obtain cs' where cs: "cs = CHR 0x0A # cs'" by (cases cs) auto
    have "first_nonblank_line (c # cs) = first_nonblank_line cs'"
      using True crlf cs assms linebreak_space [OF LF_linebreak]
      by (simp add: first_nonblank_line_def blank_two)
    moreover have "first_nonblank_line cs = first_nonblank_line cs'"
      using cs LF_linebreak linebreak_space [OF LF_linebreak]
      by (simp add: first_nonblank_line_def blank_single)
    ultimately show ?thesis by (simp add: claimed_submission_def)
  next
    case False
    then have "first_nonblank_line (c # cs) = first_nonblank_line cs"
      using True assms by (auto simp add: first_nonblank_line_def blank_single)
    then show ?thesis by (simp add: claimed_submission_def)
  qed
next
  case False
  show ?thesis
  proof (cases "splitlines_keepends cs")
    case Nil
    then show ?thesis using False assms
      by (simp add: claimed_submission_def first_nonblank_line_def blank_single)
  next
    case (Cons l ls)
    then show ?thesis using False assms
      by (simp add: claimed_submission_def first_nonblank_line_def blank_space_Cons strip_space_Cons)
  qed
qed

lemma splitlines_keepends_nonspace:
  "\<not> is_space c \<Longrightarrow> \<exists>l ls. splitlines_keepends (c # cs) = (c # l) # ls"
  using linebreak_space [of c] by (cases "splitlines_keepends cs") auto

text \<open>
  Claim C8: for every sandbox command output, \<open>_check_submission\<close> raises \<open>Submitted\<close>
  exactly when the first non-blank line of the output, stripped of surrounding whitespace,
  is \<open>MINI_SWE_AGENT_FINAL_OUTPUT\<close> or \<open>COMPLETE_TASK_AND_SUBMIT_FINAL_OUTPUT\<close>, and the
  exception then carries exactly the text that follows that line; an output whose first
  non-blank line is not a sentinel, or that has no non-blank line, raises nothing.
\<close>

theorem check_submission_first_nonblank_line:
  "check_submission out = claimed_submission out"
proof (induction out)
  case Nil
  show ?case by (simp add: check_submission_def claimed_submission_def first_nonblank_line_def lstrip_def)
next
  case (Cons c cs)
  show ?case
  proof (cases "is_space c")
    case True
    then have "check_submission (c # cs) = check_submission cs"
      by (simp add: check_submission_def lstrip_def)
    with Cons claimed_submission_space [OF True] show ?thesis by simp
  next
    case False
    from splitlines_keepends_nonspace [OF False] obtain l ls where
      sl: "splitlines_keepends (c # cs) = (c # l) # ls" by blast
    have "lstrip (c # cs) = c # cs" using False by (simp add: lstrip_def)
    then show ?thesis using sl not_blank_Cons [OF False]
      by (simp add: check_submission_def claimed_submission_def first_nonblank_line_def Let_def)
  qed
qed

text \<open>Claim C8, scenario S8: a sentinel line after a blank line, followed by the answer
  body.\<close>

theorem check_submission_first_nonblank_line_witness:
  "check_submission ''  \<newline>COMPLETE_TASK_AND_SUBMIT_FINAL_OUTPUT\<newline>answer body\<newline>''
     = Inl (Submitted ''answer body\<newline>'')"
  using check_submission_first_nonblank_line
          [of "''  \<newline>COMPLETE_TASK_AND_SUBMIT_FINAL_OUTPUT\<newline>answer body\<newline>''"]
  by (simp add: claimed_submission_def first_nonblank_line_def blank_def strip_def lstrip_def
        rstrip_def is_space_def is_linebreak_def)

section \<open>Properties of the code context manager\<close>

subsection \<open>The enclosing node\<close>

lemma last_or_simps [simp]:
  "last_or r [] = r" "last_or r [x] = Some x"
  "last_or r (xs @ ys) = last_or (last_or r xs) ys"
  by (cases ys; cases xs; simp add: last_or_def)+

lemma fold_walk_candidates:
  assumes "\<And>c r. c \<in> set cs \<Longrightarrow>
     walk_enclosing idx ty c r = last_or r (enclosing_candidates idx ty c)"
  shows "fold (walk_enclosing idx ty) cs r = last_or r (concat (map (enclosing_candidates idx ty) cs))"
  using assms by (induction cs arbitrary: r) simp_all

lemma walk_enclosing_candidates:
  "walk_enclosing idx ty node r = last_or r (enclosing_candidates idx ty node)"
proof (induction node arbitrary: r)
  case (TSNode t sp ep fl tx cs)
  have f: "\<And>r. fold (walk_enclosing idx ty) cs r =
     last_or r (concat (map (enclosing_candidates idx ty) cs))"
    by (rule fold_walk_candidates) (use TSNode in simp)
  show ?case by (simp add: f)
qed

lemma enclosing_node_candidates:
  "enclosing_node root line ty = last_or None (enclosing_candidates (line - 1) ty root)"
  by (simp add: enclosing_node_def walk_enclosing_candidates)

lemma candidates_type:
  "f \<in> set (enclosing_candidates idx ty node) \<Longrightarrow> ts_type f = ty \<and> contains_line f idx"
  by (induction node) (auto simp: contains_line_def split: if_splits)

lemma last_concat_map:
  assumes "concat (map g cs) \<noteq> []"
  shows "\<exists>c \<in> set cs. g c \<noteq> [] \<and> last (concat (map g cs)) = last (g c)"
  using assms
proof (induction cs rule: rev_induct)
  case Nil
  then show ?case by simp
next
  case (snoc c cs)
  show ?case
  proof (cases "g c = []")
    case True
    with snoc show ?thesis by auto
  next
    case False
    then show ?thesis by auto
  qed
qed

lemma candidates_innermost:
  "enclosing_candidates idx ty node \<noteq> [] \<Longrightarrow>
   enclosing_candidates idx ty (last (enclosing_candidates idx ty node))
     = [last (enclosing_candidates idx ty node)]"
proof (induction node)
  case (TSNode t sp ep fl tx cs)
  let ?inner = "concat (map (enclosing_candidates idx ty) cs)"
  from TSNode.prems have inside: "int (fst sp) \<le> idx \<and> idx \<le> int (fst ep)"
    by (auto split: if_splits)
  show ?case
  proof (cases "?inner = []")
    case True
    with TSNode.prems inside show ?thesis by (auto split: if_splits)
  next
    case False
    from last_concat_map [OF False] obtain c where
      c: "c \<in> set cs" "enclosing_candidates idx ty c \<noteq> []"
         "last ?inner = last (enclosing_candidates idx ty c)" by blast
    have "last (enclosing_candidates idx ty (TSNode t sp ep fl tx cs)) = last ?inner"
      using False inside by simp
    with c TSNode.IH [OF c(1) c(2)] show ?thesis by simp
  qed
qed

subsection \<open>The window of \<open>get_nearby_code_context\<close>\<close>

text \<open>
  Claim C6, as amended: for every file and line number, \<open>get_nearby_code_context\<close> with
  window \<open>w\<close> returns an empty, non-whole\_function chunk when the file is empty.
  Otherwise, if no function definition encloses the line, it returns a
  non-whole\_function chunk whose lines run from \<open>line - w div 2\<close> to \<open>line + w div 2\<close>
  (\<open>w div 2\<close> lines on each side of the line, hence \<open>2 * (w div 2) + 1\<close> lines before
  clamping), clamped to \<open>[1, total_lines]\<close>; if the innermost enclosing function
  definition has length at most \<open>w\<close>, a whole\_function chunk covering exactly the
  function's line range; otherwise a non-whole\_function chunk with the same window
  clamped to the function's extent. The function definition used is the innermost one:
  it has that type, contains the line, and no function definition inside it does.
\<close>

theorem get_nearby_code_context_window:
  "let read_path = resolve_path m path;
       content = fst (read_file gf m read_path);
       m1 = snd (read_file gf m read_path);
       total = int (length (splitlines content));
       root = fst (parse_file gf parse m1 read_path);
       chunk = fst (get_nearby_code_context gf parse m path line w)
   in if content = [] then lines chunk = [] \<and> \<not> whole_function chunk
      else
        (case enclosing_node root line ''function_definition'' of
           None \<Rightarrow>
             enclosing_candidates (line - 1) ''function_definition'' root = [] \<and>
             \<not> whole_function chunk \<and>
             lines chunk = [max 1 (line - w div 2) .. min total (line + w div 2)]
         | Some f \<Rightarrow>
             ts_type f = ''function_definition'' \<and> contains_line f (line - 1) \<and>
             enclosing_candidates (line - 1) ''function_definition'' f = [f] \<and>
             (let a = fst (node_lines f); b = snd (node_lines f)
              in if b - a + 1 \<le> w then whole_function chunk \<and> lines chunk = [a..b]
                 else \<not> whole_function chunk \<and>
                      lines chunk = [max a (line - w div 2) .. min b (line + w div 2)]))"
proof -
  define read_path where "read_path = resolve_path m path"
  define content where "content = fst (read_file gf m read_path)"
  define m1 where "m1 = snd (read_file gf m read_path)"
  define root where "root = fst (parse_file gf parse m1 read_path)"
  define cands where "cands = enclosing_candidates (line - 1) ''function_definition'' root"
  have rf: "read_file gf m read_path = (content, m1)" by (simp add: content_def m1_def)
  obtain m2 where pf: "parse_file gf parse m1 read_path = (root, m2)"
    by (cases "parse_file gf parse m1 read_path") (simp add: root_def)
  have en: "enclosing_node root line ''function_definition'' = last_or None cands"
    by (simp add: enclosing_node_candidates cands_def)
  have inner: "cands \<noteq> [] \<Longrightarrow>
      ts_type (last cands) = ''function_definition'' \<and> contains_line (last cands) (line - 1) \<and>
      enclosing_candidates (line - 1) ''function_definition'' (last cands) = [last cands]"
    using candidates_type [of "last cands" "line - 1" "''function_definition''" root]
      candidates_innermost [of "line - 1" "''function_definition''" root]
    by (simp add: cands_def)
  have ?thesis if "content = []"
    using that rf by (simp add: get_nearby_code_context_def Let_def empty_chunk_def
        read_path_def [symmetric] content_def [symmetric])
  moreover have ?thesis if c: "content \<noteq> []" and n: "cands = []"
    using c n rf pf en
    by (simp add: get_nearby_code_context_def Let_def read_path_def [symmetric]
        content_def [symmetric] m1_def [symmetric] root_def [symmetric] cands_def [symmetric])
  moreover have ?thesis if c: "content \<noteq> []" and n: "cands \<noteq> []"
  proof -
    from n have e: "enclosing_node root line ''function_definition'' = Some (last cands)"
      by (simp add: en last_or_def split: list.splits)
    show ?thesis
      using c rf pf e inner [OF n]
      by (simp add: get_nearby_code_context_def Let_def read_path_def [symmetric]
          content_def [symmetric] m1_def [symmetric] root_def [symmetric] split_beta)
  qed
  ultimately show ?thesis by blast
qed

text \<open>
  Claim C6, as stated, fails: with window 4 on line 5 of a nine-line file without
  functions the chunk has the five lines 3 to 7, not a window of 4 lines.
\<close>

lemma nine_lines_splitlines: "length (splitlines nine_lines) = 9"
  by (simp add: nine_lines_def is_linebreak_def eval_nat_numeral)

theorem nearby_window_has_one_more_line:
  "lines (fst (get_nearby_code_context (\<lambda>_. nine_lines) (\<lambda>_. nine_lines_tree)
                 (new_manager []) ''f.py'' 5 4)) = [3, 4, 5, 6, 7] \<and>
   length (lines (fst (get_nearby_code_context (\<lambda>_. nine_lines) (\<lambda>_. nine_lines_tree)
                 (new_manager []) ''f.py'' 5 4))) \<noteq> 4"
proof -
  have ne: "nine_lines \<noteq> []" by (simp add: nine_lines_def eval_nat_numeral)
  have en: "enclosing_node nine_lines_tree 5 ''function_definition'' = None"
    by (simp add: enclosing_node_def nine_lines_tree_def upt_rec [of _ 9] eval_nat_numeral)
  have "lines (fst (get_nearby_code_context (\<lambda>_. nine_lines) (\<lambda>_. nine_lines_tree)
                 (new_manager []) ''f.py'' 5 4)) = [3..7]"
    using ne en
    by (simp add: get_nearby_code_context_def new_manager_def resolve_path_def read_file_def
        parse_file_def Let_def nine_lines_splitlines)
  then show ?thesis by (simp add: upto_rec1 upto.simps)
qed

text \<open>Claim C6, witness: scenario S4. Line 3 lies in the four-line method \<open>short\<close>, which
  is returned whole as lines 2 to 5.\<close>

theorem get_nearby_code_context_window_witness:
  "whole_function (fst (get_nearby_code_context (\<lambda>_. s4_source) (\<lambda>_. s4_tree)
                          (new_manager []) ''f.py'' 3 100)) \<and>
   lines (fst (get_nearby_code_context (\<lambda>_. s4_source) (\<lambda>_. s4_tree)
                          (new_manager []) ''f.py'' 3 100)) = [2, 3, 4, 5]"
proof -
  have ne: "s4_source \<noteq> []" by (simp add: s4_source_def)
  have en: "enclosing_node s4_tree 3 ''function_definition'' =
      Some (hd (ts_children (ts_children (hd (ts_children s4_tree)) ! 3)))"
    by (simp add: enclosing_node_def s4_tree_def)
  have nl: "node_lines (hd (ts_children (ts_children (hd (ts_children s4_tree)) ! 3))) = (2, 5)"
    by (simp add: node_lines_def s4_tree_def)
  from get_nearby_code_context_window
         [of "new_manager []" "''f.py''" "\<lambda>_. s4_source" "\<lambda>_. s4_tree" 3 100]
  have "whole_function (fst (get_nearby_code_context (\<lambda>_. s4_source) (\<lambda>_. s4_tree)
                          (new_manager []) ''f.py'' 3 100)) \<and>
        lines (fst (get_nearby_code_context (\<lambda>_. s4_source) (\<lambda>_. s4_tree)
                          (new_manager []) ''f.py'' 3 100)) = [2..5]"
    using ne en nl
    by (simp add: new_manager_def resolve_path_def read_file_def parse_file_def Let_def)
  then show ?thesis by (simp add: upto_rec1 upto.simps)
qed

subsection \<open>Rendering and the order of the chunks\<close>

lemma one_line_splitlines: "splitlines one_line = [''x = 1'']"
  by (simp add: one_line_def is_linebreak_def)

lemma collect_needed_lines_state:
  "snd (collect_needed_lines P m cs content) = m\<lparr>parse_calls := parse_calls m @ [content]\<rparr>"
  by (simp add: collect_needed_lines_def parse_file_content_def Let_def)

lemma collect_needed_lines_any:
  "fst (collect_needed_lines P m cs content) = fst (collect_needed_lines P m' cs content)"
  by (simp add: collect_needed_lines_def parse_file_content_def Let_def)

lemma one_line_needed_a: "fst (collect_needed_lines (\<lambda>_. one_line_tree) m [chunk_a] one_line) = [1]"
  by (simp add: collect_needed_lines_def parse_file_content_def chunk_needed_lines_def
      get_signature_lines_def build_block_parents_def one_line_tree_def statement_blocks_def
      Let_def chunk_a_def)

lemma one_line_needed_b: "fst (collect_needed_lines (\<lambda>_. one_line_tree) m [chunk_b] one_line) = [1]"
  by (simp add: collect_needed_lines_def parse_file_content_def chunk_needed_lines_def
      get_signature_lines_def build_block_parents_def one_line_tree_def statement_blocks_def
      Let_def chunk_b_def)

lemma one_line_rendered: "render_lines [''x = 1''] [1] False = '' 1 x = 1''"
  by (simp add: render_lines_def max_list_def str_int_def rjust_def)

lemma merge_a_b: "merge_chunks [chunk_a, chunk_b] = [chunk_a, chunk_b]"
  by (simp add: merge_chunks_def merge_step_def chunk_a_def chunk_b_def Let_def)

lemma merge_b_a: "merge_chunks [chunk_b, chunk_a] = [chunk_b, chunk_a]"
  by (simp add: merge_chunks_def merge_step_def chunk_a_def chunk_b_def Let_def)

lemma group_a_b:
  "group_step (group_step [] chunk_a) chunk_b = [(''a.py'', [chunk_a]), (''b.py'', [chunk_b])]"
  by (simp add: group_step_def chunk_a_def chunk_b_def)

lemma group_b_a:
  "group_step (group_step [] chunk_b) chunk_a = [(''b.py'', [chunk_b]), (''a.py'', [chunk_a])]"
  by (simp add: group_step_def chunk_a_def chunk_b_def)

lemma render_file_one_line:
  assumes "cwd m = []" and "file_cache m path = None"
    and "\<And>m'. fst (collect_needed_lines P m' chunks one_line) = [1]"
    and "\<forall>c \<in> set chunks. \<not> eof c"
  shows "render_file (\<lambda>_. one_line) P (path, chunks) (secs, m) =
     (secs @ [''## File: `'' @ path @ ''`\<newline> 1 x = 1''],
      m\<lparr>file_cache := (file_cache m)(path \<mapsto> one_line),
        get_file_calls := get_file_calls m @ [path],
        parse_calls := parse_calls m @ [one_line]\<rparr>)"
  using assms
  by (simp add: render_file_def resolve_path_def read_file_def Let_def split_beta
      one_line_splitlines one_line_rendered collect_needed_lines_state)

text \<open>
  Claim C3, as stated, fails: the two chunks \<open>chunk_a\<close> and \<open>chunk_b\<close> belong to different
  files, and rendering them in the two possible orders gives the two file sections in the
  two possible orders.
\<close>

theorem render_depends_on_file_order:
  "fst (render (\<lambda>_. one_line) (\<lambda>_. one_line_tree) (new_manager []) [chunk_a, chunk_b])
     = ''## File: `a.py`\<newline> 1 x = 1\<newline>\<newline>## File: `b.py`\<newline> 1 x = 1'' \<and>
   fst (render (\<lambda>_. one_line) (\<lambda>_. one_line_tree) (new_manager []) [chunk_b, chunk_a])
     = ''## File: `b.py`\<newline> 1 x = 1\<newline>\<newline>## File: `a.py`\<newline> 1 x = 1'' \<and>
   fst (render (\<lambda>_. one_line) (\<lambda>_. one_line_tree) (new_manager []) [chunk_a, chunk_b])
     \<noteq> fst (render (\<lambda>_. one_line) (\<lambda>_. one_line_tree) (new_manager []) [chunk_b, chunk_a])"
proof -
  have ea: "\<forall>c \<in> set [chunk_a]. \<not> eof c" and eb: "\<forall>c \<in> set [chunk_b]. \<not> eof c"
    by (simp_all add: chunk_a_def chunk_b_def)
  have ab: "fst (render (\<lambda>_. one_line) (\<lambda>_. one_line_tree) (new_manager []) [chunk_a, chunk_b])
     = ''## File: `a.py`\<newline> 1 x = 1\<newline>\<newline>## File: `b.py`\<newline> 1 x = 1''"
    by (simp add: render_def merge_a_b group_a_b Let_def new_manager_def
        render_file_one_line [OF _ _ one_line_needed_a ea]
        render_file_one_line [OF _ _ one_line_needed_b eb])
  have ba: "fst (render (\<lambda>_. one_line) (\<lambda>_. one_line_tree) (new_manager []) [chunk_b, chunk_a])
     = ''## File: `b.py`\<newline> 1 x = 1\<newline>\<newline>## File: `a.py`\<newline> 1 x = 1''"
    by (simp add: render_def merge_b_a group_b_a Let_def new_manager_def
        render_file_one_line [OF _ _ one_line_needed_a ea]
        render_file_one_line [OF _ _ one_line_needed_b eb])
  show ?thesis unfolding ab ba by simp
qed

lemma insertion_order_snoc:
  "insertion_order (xs @ [x]) =
     (if x \<in> set (insertion_order xs) then insertion_order xs else insertion_order xs @ [x])"
  by (simp add: insertion_order_def)

lemma set_insertion_order [simp]: "set (insertion_order xs) = set xs"
  by (induction xs rule: rev_induct) (auto simp: insertion_order_snoc insertion_order_def)

lemma insertion_order_Nil [simp]: "insertion_order [] = []"
  by (simp add: insertion_order_def)

lemma insertion_order_empty_iff [simp]: "insertion_order xs = [] \<longleftrightarrow> xs = []"
  by (metis set_insertion_order set_empty insertion_order_Nil)

lemma insertion_order_map:
  "insertion_order (map f (insertion_order xs)) = insertion_order (map f xs)"
proof (induction xs rule: rev_induct)
  case Nil
  show ?case by simp
next
  case (snoc x xs)
  show ?case
  proof (cases "x \<in> set xs")
    case True
    then have "f x \<in> set (map f xs)" by simp
    with True snoc show ?thesis by (simp add: insertion_order_snoc)
  next
    case False
    have "insertion_order (map f (insertion_order (xs @ [x])))
        = insertion_order (map f (insertion_order xs) @ [f x])"
      using False by (simp add: insertion_order_snoc)
    also have "\<dots> = (if f x \<in> f ` set xs then insertion_order (map f xs)
                       else insertion_order (map f xs) @ [f x])"
      using snoc by (simp add: insertion_order_snoc)
    also have "\<dots> = insertion_order (map f (xs @ [x]))"
      by (simp add: insertion_order_snoc)
    finally show ?thesis .
  qed
qed

lemma map_of_keyed:
  "map_of (map (\<lambda>k. (k, g k)) ks) k = (if k \<in> set ks then Some (g k) else None)"
  by (induction ks) auto

lemma sort_remdups_set: "sort (remdups xs) = sorted_list_of_set (set xs)"
  by (simp add: sorted_list_of_set_sort_remdups)

lemma merged_of_other:
  "chunk_key x \<noteq> k \<Longrightarrow> merged_of (insert x S) k = merged_of S k"
proof -
  assume a: "chunk_key x \<noteq> k"
  then have "{c \<in> insert x S. chunk_key c = k} = {c \<in> S. chunk_key c = k}" by auto
  with a show ?thesis by (auto simp: merged_of_def)
qed

lemma merged_of_new:
  assumes "chunk_key x \<notin> chunk_key ` S"
  shows "merged_of (insert x S) (chunk_key x) =
     \<lparr>file_path = file_path x, class_name = class_name x, function_name = function_name x,
      whole_function = whole_function x, lines = sort (remdups (lines x)), eof = eof x\<rparr>"
proof -
  have "\<And>c. c \<in> S \<Longrightarrow> chunk_key c \<noteq> chunk_key x" using assms by (metis imageI)
  then have "{c \<in> insert x S. chunk_key c = chunk_key x} = {x}" by auto
  moreover have "(\<exists>c \<in> insert x S. chunk_key c = chunk_key x \<and> P c) = P x" for P
    using \<open>\<And>c. c \<in> S \<Longrightarrow> chunk_key c \<noteq> chunk_key x\<close> by auto
  ultimately show ?thesis by (simp add: merged_of_def sort_remdups_set chunk_key_def)
qed

lemma merged_of_update:
  assumes "finite S"
  shows "merged_of (insert x S) (chunk_key x) =
     (merged_of S (chunk_key x))
       \<lparr>whole_function := whole_function (merged_of S (chunk_key x)) \<or> whole_function x,
        eof := eof (merged_of S (chunk_key x)) \<or> eof x,
        lines := sort (remdups (lines (merged_of S (chunk_key x)) @ lines x))\<rparr>"
proof -
  let ?U = "\<Union>c \<in> {c \<in> S. chunk_key c = chunk_key x}. set (lines c)"
  have fin: "finite ?U" using assms by simp
  have "{c \<in> insert x S. chunk_key c = chunk_key x} = insert x {c \<in> S. chunk_key c = chunk_key x}"
    by auto
  then have "(\<Union>c \<in> {c \<in> insert x S. chunk_key c = chunk_key x}. set (lines c)) = set (lines x) \<union> ?U"
    by simp
  moreover have "set (lines (merged_of S (chunk_key x))) = ?U"
    using fin by (simp add: merged_of_def)
  ultimately have "lines (merged_of (insert x S) (chunk_key x))
      = sort (remdups (lines (merged_of S (chunk_key x)) @ lines x))"
    by (simp add: merged_of_def sort_remdups_set Un_commute)
  moreover have "whole_function (merged_of (insert x S) (chunk_key x))
      = (whole_function (merged_of S (chunk_key x)) \<or> whole_function x)"
    by (auto simp: merged_of_def)
  moreover have "eof (merged_of (insert x S) (chunk_key x)) = (eof (merged_of S (chunk_key x)) \<or> eof x)"
    by (auto simp: merged_of_def)
  ultimately show ?thesis by (simp add: merged_of_def)
qed

lemma merge_fold_merged:
  "fold (\<lambda>chunk by_key. merge_step by_key chunk) xs [] =
     map (\<lambda>k. (k, merged_of (set xs) k)) (insertion_order (map chunk_key xs))"
proof (induction xs rule: rev_induct)
  case Nil
  show ?case by simp
next
  case (snoc x xs)
  let ?K = "insertion_order (map chunk_key xs)"
  let ?S = "set xs"
  have key: "(file_path x, class_name x, function_name x) = chunk_key x" by (simp add: chunk_key_def)
  have step: "fold (\<lambda>chunk by_key. merge_step by_key chunk) (xs @ [x]) [] =
      merge_step (map (\<lambda>k. (k, merged_of ?S k)) ?K) x"
    using snoc by simp
  show ?case
  proof (cases "chunk_key x \<in> set ?K")
    case False
    then have nk: "chunk_key x \<notin> chunk_key ` ?S" by simp
    have same: "map (\<lambda>k. (k, merged_of ?S k)) ?K = map (\<lambda>k. (k, merged_of (insert x ?S) k)) ?K"
    proof (rule map_cong)
      fix k assume "k \<in> set ?K"
      with False have "chunk_key x \<noteq> k" by auto
      then show "(k, merged_of ?S k) = (k, merged_of (insert x ?S) k)" by (simp add: merged_of_other)
    qed simp
    have "merge_step (map (\<lambda>k. (k, merged_of ?S k)) ?K) x =
        map (\<lambda>k. (k, merged_of ?S k)) ?K @ [(chunk_key x, merged_of (insert x ?S) (chunk_key x))]"
      using False by (simp add: merge_step_def key map_of_keyed merged_of_new [OF nk] Let_def)
    then have "merge_step (map (\<lambda>k. (k, merged_of ?S k)) ?K) x =
        map (\<lambda>k. (k, merged_of (insert x ?S) k)) (?K @ [chunk_key x])"
      unfolding same by simp
    then show ?thesis using False step by (simp add: insertion_order_snoc)
  next
    case True
    have "merge_step (map (\<lambda>k. (k, merged_of ?S k)) ?K) x =
        map (\<lambda>k. (k, merged_of (insert x ?S) k)) ?K"
      using True
      by (auto simp add: merge_step_def key map_of_keyed Let_def merged_of_other
            merged_of_update [symmetric])
    then show ?thesis using True step by (simp add: insertion_order_snoc)
  qed
qed

lemma merge_chunks_merged:
  "merge_chunks xs = map (merged_of (set xs)) (insertion_order (map chunk_key xs))"
  by (simp add: merge_chunks_def merge_fold_merged comp_def)

lemma group_fold_files:
  "fold (\<lambda>chunk fs. group_step fs chunk) ms [] =
     map (\<lambda>f. (f, filter (\<lambda>c. file_path c = f) ms)) (insertion_order (map file_path ms))"
proof (induction ms rule: rev_induct)
  case Nil
  show ?case by simp
next
  case (snoc c ms)
  let ?F = "insertion_order (map file_path ms)"
  have step: "fold (\<lambda>chunk fs. group_step fs chunk) (ms @ [c]) [] =
      group_step (map (\<lambda>f. (f, filter (\<lambda>c. file_path c = f) ms)) ?F) c"
    using snoc by simp
  show ?case
  proof (cases "file_path c \<in> set ?F")
    case False
    then have "\<And>d. d \<in> set ms \<Longrightarrow> file_path d \<noteq> file_path c"
      by (metis imageI set_insertion_order set_map)
    then have none: "filter (\<lambda>d. file_path d = file_path c) ms = []"
      by (simp add: filter_empty_conv)
    have same: "map (\<lambda>f. (f, filter (\<lambda>c. file_path c = f) ms)) ?F =
        map (\<lambda>f. (f, filter (\<lambda>d. file_path d = f) (ms @ [c]))) ?F"
    proof (rule map_cong)
      fix f assume "f \<in> set ?F"
      with False have "file_path c \<noteq> f" by auto
      then show "(f, filter (\<lambda>c. file_path c = f) ms) = (f, filter (\<lambda>d. file_path d = f) (ms @ [c]))"
        by simp
    qed simp
    have "group_step (map (\<lambda>f. (f, filter (\<lambda>c. file_path c = f) ms)) ?F) c =
        map (\<lambda>f. (f, filter (\<lambda>c. file_path c = f) ms)) ?F @ [(file_path c, [c])]"
      using False by (simp add: group_step_def map_of_keyed)
    then have "group_step (map (\<lambda>f. (f, filter (\<lambda>c. file_path c = f) ms)) ?F) c =
        map (\<lambda>f. (f, filter (\<lambda>d. file_path d = f) (ms @ [c]))) (?F @ [file_path c])"
      unfolding same using none by simp
    then show ?thesis using False step by (simp add: insertion_order_snoc)
  next
    case True
    have "group_step (map (\<lambda>f. (f, filter (\<lambda>c. file_path c = f) ms)) ?F) c =
        map (\<lambda>f. (f, filter (\<lambda>d. file_path d = f) (ms @ [c]))) ?F"
      using True by (auto simp add: group_step_def map_of_keyed)
    then show ?thesis using True step by (simp add: insertion_order_snoc)
  qed
qed

lemma fold_append_acc: "fold (\<lambda>x acc. acc @ g x) xs acc = acc @ concat (map g xs)"
  by (induction xs arbitrary: acc) simp_all

lemma set_collect_needed_lines:
  "set (fst (collect_needed_lines P m cs content)) =
     (\<Union>c \<in> set cs. set (chunk_needed_lines (build_signature_map (P content))
                               (build_block_parents (P content)) c))"
  by (simp add: collect_needed_lines_def parse_file_content_def Let_def fold_append_acc)

lemma render_file_set:
  assumes "set cs = set cs'"
  shows "render_file gf P (f, cs) acc = render_file gf P (f, cs') acc"
proof -
  have s: "set (fst (collect_needed_lines P m cs content))
      = set (fst (collect_needed_lines P m cs' content))"
    for content m
    using assms by (simp add: set_collect_needed_lines)
  then have e: "(fst (collect_needed_lines P m cs content) = [])
      = (fst (collect_needed_lines P m cs' content) = [])"
    for content m
    by (metis set_empty)
  have r: "sort (remdups (fst (collect_needed_lines P m cs content)))
      = sort (remdups (fst (collect_needed_lines P m cs' content)))" for content m
    using s by (simp add: sort_remdups_set)
  show ?thesis using assms
    by (simp add: render_file_def Let_def split_beta e r collect_needed_lines_state)
qed

lemma fold_render_file_set:
  assumes "list_all2 (\<lambda>e e'. fst e = fst e' \<and> set (snd e) = set (snd e')) fs fs'"
  shows "fold (render_file gf P) fs acc = fold (render_file gf P) fs' acc"
  using assms
proof (induction fs fs' arbitrary: acc rule: list_all2_induct)
  case Nil
  show ?case by simp
next
  case (Cons e fs e' fs')
  have "render_file gf P e acc = render_file gf P e' acc"
    using Cons.hyps(1) render_file_set [of "snd e" "snd e'" gf P "fst e" acc]
    by (cases e; cases e') simp
  with Cons.IH show ?case by simp
qed

lemma file_path_merged_of [simp]: "file_path (merged_of S k) = fst k"
  by (simp add: merged_of_def)

lemma merged_files_order:
  "insertion_order (map file_path (merge_chunks xs)) = insertion_order (map file_path xs)"
proof -
  have "map file_path (merge_chunks xs) = map fst (insertion_order (map chunk_key xs))"
    by (simp add: merge_chunks_merged comp_def)
  moreover have "map fst (map chunk_key xs) = map file_path xs"
    by (simp add: chunk_key_def comp_def)
  ultimately show ?thesis using insertion_order_map [of fst "map chunk_key xs"] by metis
qed

lemma set_merge_chunks: "set (merge_chunks xs) = merged_of (set xs) ` chunk_key ` set xs"
  by (simp add: merge_chunks_merged)

text \<open>
  Claim C3, as amended: the rendered text (and the manager state after rendering) is a
  function of the set of chunks supplied and of the order in which their file paths first
  occur. Two chunk lists with the same elements whose file paths first occur in the same
  order render byte-identically; this covers every permutation, and every repetition, of
  chunks that all belong to one file. The sections of different files are emitted in the
  order in which the files first occur in the list.
\<close>

theorem render_same_set_same_file_order:
  assumes "set chunks = set chunks'"
    and "insertion_order (map file_path chunks) = insertion_order (map file_path chunks')"
  shows "render gf parse m chunks = render gf parse m chunks'"
proof -
  let ?ms = "merge_chunks chunks" and ?ms' = "merge_chunks chunks'"
  let ?F = "insertion_order (map file_path chunks)"
  have sm: "set ?ms = set ?ms'" using assms(1) by (simp add: set_merge_chunks)
  then have em: "(?ms = []) = (?ms' = [])" by (metis set_empty)
  have fo: "insertion_order (map file_path ?ms) = ?F" "insertion_order (map file_path ?ms') = ?F"
    using assms(2) by (simp_all add: merged_files_order)
  have "list_all2 (\<lambda>e e'. fst e = fst e' \<and> set (snd e) = set (snd e'))
          (map (\<lambda>f. (f, filter (\<lambda>c. file_path c = f) ?ms)) ?F)
          (map (\<lambda>f. (f, filter (\<lambda>c. file_path c = f) ?ms')) ?F)"
    using sm by (simp add: list_all2_map1 list_all2_map2 list_all2_same)
  then have "fold (render_file gf parse) (fold (\<lambda>chunk fs. group_step fs chunk) ?ms []) ([], m)
      = fold (render_file gf parse) (fold (\<lambda>chunk fs. group_step fs chunk) ?ms' []) ([], m)"
    unfolding group_fold_files fo by (rule fold_render_file_set)
  with em show ?thesis by (simp add: render_def Let_def)
qed

text \<open>Claim C3, witness: the chunk of \<open>a.py\<close> repeated before or after the chunk of
  \<open>b.py\<close>; the file paths first occur in the order \<open>a.py\<close>, \<open>b.py\<close> in both lists.\<close>

theorem render_same_set_same_file_order_witness:
  "set [chunk_a, chunk_b, chunk_a] = set [chunk_a, chunk_a, chunk_b] \<and>
   insertion_order (map file_path [chunk_a, chunk_b, chunk_a])
     = insertion_order (map file_path [chunk_a, chunk_a, chunk_b]) \<and>
   render (\<lambda>_. one_line) (\<lambda>_. one_line_tree) (new_manager []) [chunk_a, chunk_b, chunk_a]
     = render (\<lambda>_. one_line) (\<lambda>_. one_line_tree) (new_manager []) [chunk_a, chunk_a, chunk_b]"
proof -
  have s: "set [chunk_a, chunk_b, chunk_a] = set [chunk_a, chunk_a, chunk_b]" by auto
  have i: "insertion_order (map file_path [chunk_a, chunk_b, chunk_a])
     = insertion_order (map file_path [chunk_a, chunk_a, chunk_b])"
    by (simp add: insertion_order_def chunk_a_def chunk_b_def)
  from render_same_set_same_file_order [OF s i] s i show ?thesis by blast
qed

subsection \<open>The caches and the calls of the delegates\<close>

lemma calls_match_cache_simps [simp]:
  "calls_match_cache (m\<lparr>parse_calls := v\<rparr>) = calls_match_cache m"
  "calls_match_cache (m\<lparr>parse_cache := u\<rparr>) = calls_match_cache m"
  by (simp_all add: calls_match_cache_def)

lemma agree_uncached_simps [simp]:
  "agree_uncached gf gf' (m\<lparr>parse_calls := v\<rparr>) = agree_uncached gf gf' m"
  "agree_uncached gf gf' (m\<lparr>parse_cache := u\<rparr>) = agree_uncached gf gf' m"
  by (simp_all add: agree_uncached_def)

lemma cache_consistent_parse_calls [simp]:
  "cache_consistent parse (m\<lparr>parse_calls := v\<rparr>) = cache_consistent parse m"
  by (simp add: cache_consistent_def)

lemma content_at_simps [simp]:
  "content_at gf (m\<lparr>parse_calls := v\<rparr>) = content_at gf m"
  "content_at gf (m\<lparr>parse_cache := u\<rparr>) = content_at gf m"
  by (simp_all add: content_at_def fun_eq_iff)

lemma resolve_path_simps [simp]:
  "resolve_path (m\<lparr>parse_calls := v\<rparr>) = resolve_path m"
  "resolve_path (m\<lparr>parse_cache := u\<rparr>) = resolve_path m"
  by (simp_all add: resolve_path_def fun_eq_iff)

lemma resolve_path_cwd: "cwd m' = cwd m \<Longrightarrow> resolve_path m' = resolve_path m"
  by (simp add: resolve_path_def fun_eq_iff)

lemma read_file_content: "fst (read_file gf m p) = content_at gf m p"
  by (simp add: read_file_def content_at_def Let_def split: option.splits)

lemma read_file_state:
  "snd (read_file gf m p) =
     (if file_cache m p = None
      then m\<lparr>file_cache := (file_cache m)(p \<mapsto> gf p), get_file_calls := get_file_calls m @ [p]\<rparr>
      else m)"
  by (simp add: read_file_def Let_def split: option.splits)

lemma read_file_cached: "file_cache (snd (read_file gf m p)) p = Some (content_at gf m p)"
  by (auto simp: read_file_state content_at_def)

lemma read_file_calls:
  "get_file_calls (snd (read_file gf m p)) =
     get_file_calls m @ (if file_cache m p = None then [p] else [])"
  by (simp add: read_file_state)

lemma read_file_agree: "agree_uncached gf gf' m \<Longrightarrow> read_file gf m p = read_file gf' m p"
  by (simp add: read_file_def agree_uncached_def Let_def split: option.splits)

lemma read_file_agree_after:
  "agree_uncached gf gf' m \<Longrightarrow> agree_uncached gf gf' (snd (read_file gf m p))"
  by (simp add: read_file_state agree_uncached_def)

lemma read_file_keeps:
  "file_cache m q = Some c \<Longrightarrow> file_cache (snd (read_file gf m p)) q = Some c"
  "parse_cache (snd (read_file gf m p)) = parse_cache m"
  "cwd (snd (read_file gf m p)) = cwd m"
  "parse_calls (snd (read_file gf m p)) = parse_calls m"
  "resolve_path (snd (read_file gf m p)) = resolve_path m"
  by (auto simp: read_file_state resolve_path_def fun_eq_iff)

lemma read_file_content_at: "content_at gf (snd (read_file gf m p)) = content_at gf m"
  by (auto simp: read_file_state content_at_def fun_eq_iff)

lemma read_file_consistent:
  "cache_consistent parse m \<Longrightarrow> cache_consistent parse (snd (read_file gf m p))"
  unfolding cache_consistent_def read_file_state
  by (cases "file_cache m p") (fastforce split: if_splits)+

lemma read_file_calls_match:
  "calls_match_cache m \<Longrightarrow> calls_match_cache (snd (read_file gf m p))"
  by (auto simp: read_file_state calls_match_cache_def)

lemma read_file_again: "read_file gf (snd (read_file gf' m p)) p = (content_at gf' m p, snd (read_file gf' m p))"
  using read_file_cached [of gf' m p] by (simp add: read_file_def)

lemma parse_file_state:
  "snd (parse_file gf parse m p) =
     (if parse_cache m p = None
      then (snd (read_file gf m p))
             \<lparr>parse_cache := (parse_cache m)(p \<mapsto> parse (content_at gf m p)),
               parse_calls := parse_calls m @ [content_at gf m p]\<rparr>
      else snd (read_file gf m p))"
  by (auto simp: parse_file_def Let_def split_beta read_file_keeps read_file_content
           split: option.splits)

lemma parse_file_tree:
  "fst (parse_file gf parse m p) =
     (case parse_cache m p of Some t \<Rightarrow> t | None \<Rightarrow> parse (content_at gf m p))"
  by (auto simp: parse_file_def Let_def split_beta read_file_keeps read_file_content
           split: option.splits)

lemma get_code_lines_state:
  "snd (get_code_lines gf m path a b) = snd (read_file gf m (resolve_path m path))"
  by (simp add: get_code_lines_def Let_def split_beta)

lemma get_nearby_state:
  "snd (get_nearby_code_context gf parse m path line w) =
     (if content_at gf m (resolve_path m path) = [] \<or> parse_cache m (resolve_path m path) \<noteq> None
      then snd (read_file gf m (resolve_path m path))
      else (snd (read_file gf m (resolve_path m path)))
             \<lparr>parse_cache := (parse_cache m)(resolve_path m path \<mapsto>
                                parse (content_at gf m (resolve_path m path))),
               parse_calls := parse_calls m @ [content_at gf m (resolve_path m path)]\<rparr>)"
proof -
  let ?rp = "resolve_path m path"
  let ?m1 = "snd (read_file gf m ?rp)"
  have "snd (parse_file gf parse ?m1 ?rp) =
     (if parse_cache m ?rp = None
      then ?m1\<lparr>parse_cache := (parse_cache m)(?rp \<mapsto> parse (content_at gf m ?rp)),
               parse_calls := parse_calls m @ [content_at gf m ?rp]\<rparr>
      else ?m1)"
    by (simp add: parse_file_state read_file_again read_file_keeps read_file_content_at)
  then show ?thesis
    by (simp add: get_nearby_code_context_def Let_def split_beta read_file_content)
qed

lemma render_file_state:
  "snd (render_file gf parse e (secs, m)) =
     (if splitlines (content_at gf m (resolve_path m (fst e))) = []
      then snd (read_file gf m (resolve_path m (fst e)))
      else (snd (read_file gf m (resolve_path m (fst e))))
             \<lparr>parse_calls := parse_calls m @ [content_at gf m (resolve_path m (fst e))]\<rparr>)"
  by (simp add: render_file_def Let_def split_beta collect_needed_lines_state read_file_content
      read_file_keeps)

lemma render_state:
  "snd (render gf parse m chunks) =
     (if merge_chunks chunks = [] then m
      else snd (fold (render_file gf parse)
                  (fold (\<lambda>chunk fs. group_step fs chunk) (merge_chunks chunks) []) ([], m)))"
  by (simp add: render_def Let_def split_beta)

text \<open>What holds of the state before a fold of \<open>render_file\<close> and is kept by a read and by
  a parser call holds after the fold.\<close>

lemma fold_render_file_invariant:
  assumes "P m"
    and "\<And>m p. P m \<Longrightarrow> P (snd (read_file gf m p))"
    and "\<And>m v. P m \<Longrightarrow> P (m\<lparr>parse_calls := v\<rparr>)"
  shows "P (snd (fold (render_file gf parse) files (secs, m)))"
  using assms(1)
proof (induction files arbitrary: secs m)
  case Nil
  then show ?case by simp
next
  case (Cons e files)
  obtain secs1 m1 where r: "render_file gf parse e (secs, m) = (secs1, m1)"
    by (cases "render_file gf parse e (secs, m)")
  have "P (snd (render_file gf parse e (secs, m)))"
    unfolding render_file_state using assms(2,3) Cons.prems by simp
  with r have "P m1" by simp
  from Cons.IH [OF this, of secs1] r show ?case by simp
qed

lemma render_invariant:
  assumes "P m"
    and "\<And>m p. P m \<Longrightarrow> P (snd (read_file gf m p))"
    and "\<And>m v. P m \<Longrightarrow> P (m\<lparr>parse_calls := v\<rparr>)"
  shows "P (snd (render gf parse m chunks))"
  unfolding render_state using assms by (simp add: fold_render_file_invariant)

lemma parse_file_agree:
  "agree_uncached gf gf' m \<Longrightarrow> parse_file gf parse m p = parse_file gf' parse m p"
  by (simp add: parse_file_def read_file_agree)

lemma get_code_lines_agree:
  "agree_uncached gf gf' m \<Longrightarrow> get_code_lines gf m path a b = get_code_lines gf' m path a b"
  by (simp add: get_code_lines_def read_file_agree)

lemma get_nearby_agree:
  assumes "agree_uncached gf gf' m"
  shows "get_nearby_code_context gf parse m path line w = get_nearby_code_context gf' parse m path line w"
proof -
  let ?rp = "resolve_path m path"
  have r: "read_file gf m ?rp = read_file gf' m ?rp" by (rule read_file_agree [OF assms])
  have "agree_uncached gf gf' (snd (read_file gf m ?rp))" by (rule read_file_agree_after [OF assms])
  then have "parse_file gf parse (snd (read_file gf m ?rp)) ?rp = parse_file gf' parse (snd (read_file gf m ?rp)) ?rp"
    by (rule parse_file_agree)
  with r show ?thesis by (simp add: get_nearby_code_context_def Let_def split_beta)
qed

lemma get_nearby_cached_parse:
  assumes "parse_cache m (resolve_path m path) = Some t"
  shows "get_nearby_code_context gf parse m path line w = get_nearby_code_context gf parse' m path line w"
proof -
  let ?rp = "resolve_path m path"
  let ?m1 = "snd (read_file gf m ?rp)"
  have "parse_cache ?m1 ?rp = Some t" using assms by (simp add: read_file_keeps)
  then have "parse_file gf parse ?m1 ?rp = parse_file gf parse' ?m1 ?rp"
    by (simp add: parse_file_def Let_def split_beta read_file_keeps)
  then show ?thesis by (simp add: get_nearby_code_context_def Let_def split_beta)
qed

lemma render_file_agree:
  "agree_uncached gf gf' m \<Longrightarrow> render_file gf parse e (secs, m) = render_file gf' parse e (secs, m)"
  by (simp add: render_file_def read_file_agree)

lemma render_file_agree_after:
  "agree_uncached gf gf' m \<Longrightarrow> agree_uncached gf gf' (snd (render_file gf parse e (secs, m)))"
  by (simp add: render_file_state read_file_agree_after)

lemma fold_render_file_agree:
  "agree_uncached gf gf' m \<Longrightarrow>
   fold (render_file gf parse) files (secs, m) = fold (render_file gf' parse) files (secs, m)"
proof (induction files arbitrary: secs m)
  case Nil
  show ?case by simp
next
  case (Cons e files)
  obtain secs1 m1 where r: "render_file gf parse e (secs, m) = (secs1, m1)"
    by (cases "render_file gf parse e (secs, m)")
  then have "agree_uncached gf gf' m1"
    using render_file_agree_after [OF Cons.prems, of parse e secs] by simp
  from Cons.IH [OF this] r render_file_agree [OF Cons.prems, of parse e secs]
  show ?case by simp
qed

lemma render_agree:
  "agree_uncached gf gf' m \<Longrightarrow> render gf parse m chunks = render gf' parse m chunks"
  by (simp add: render_def Let_def fold_render_file_agree)

text \<open>The parser calls and the delegate calls of \<open>render\<close>.\<close>

lemma fold_render_file_parse_calls:
  "parse_calls (snd (fold (render_file gf parse) files (secs, m))) =
     parse_calls m @
     filter (\<lambda>c. splitlines c \<noteq> []) (map (\<lambda>e. content_at gf m (resolve_path m (fst e))) files)"
proof (induction files arbitrary: secs m)
  case Nil
  show ?case by simp
next
  case (Cons e files)
  obtain secs1 m1 where r: "render_file gf parse e (secs, m) = (secs1, m1)"
    by (cases "render_file gf parse e (secs, m)")
  then have m1: "m1 = snd (render_file gf parse e (secs, m))" by simp
  have c: "content_at gf m1 = content_at gf m" "resolve_path m1 = resolve_path m"
    unfolding m1 render_file_state by (simp_all add: read_file_content_at read_file_keeps)
  have p: "parse_calls m1 = parse_calls m @
      (if splitlines (content_at gf m (resolve_path m (fst e))) = [] then []
       else [content_at gf m (resolve_path m (fst e))])"
    unfolding m1 render_file_state by (simp add: read_file_keeps)
  show ?case using Cons.IH [of secs1 m1] r by (simp add: c p)
qed

lemma fold_render_file_no_read:
  assumes "\<forall>e \<in> set files. file_cache m (resolve_path m (fst e)) \<noteq> None"
  shows "get_file_calls (snd (fold (render_file gf parse) files (secs, m))) = get_file_calls m"
  using assms
proof (induction files arbitrary: secs m)
  case Nil
  show ?case by simp
next
  case (Cons e files)
  obtain secs1 m1 where r: "render_file gf parse e (secs, m) = (secs1, m1)"
    by (cases "render_file gf parse e (secs, m)")
  then have m1: "m1 = snd (render_file gf parse e (secs, m))" by simp
  from Cons.prems have h: "file_cache m (resolve_path m (fst e)) \<noteq> None" by simp
  then have s: "snd (read_file gf m (resolve_path m (fst e))) = m" by (auto simp: read_file_state)
  have f: "file_cache m1 = file_cache m" "resolve_path m1 = resolve_path m"
    "get_file_calls m1 = get_file_calls m"
    unfolding m1 render_file_state s by simp_all
  from Cons.prems have "\<forall>e \<in> set files. file_cache m1 (resolve_path m1 (fst e)) \<noteq> None"
    by (simp add: f)
  from Cons.IH [OF this, of secs1] r show ?case by (simp add: f)
qed

lemma render_files:
  "fold (\<lambda>chunk fs. group_step fs chunk) (merge_chunks chunks) [] =
     map (\<lambda>f. (f, filter (\<lambda>c. file_path c = f) (merge_chunks chunks)))
       (insertion_order (map file_path chunks))"
  by (simp add: group_fold_files merged_files_order)

lemma merge_chunks_empty: "(merge_chunks chunks = []) = (chunks = [])"
  using merged_files_order [of chunks] by (metis insertion_order_empty_iff map_is_Nil_conv)

lemma render_parse_calls:
  "parse_calls (snd (render gf parse m chunks)) =
     parse_calls m @
     filter (\<lambda>c. splitlines c \<noteq> [])
       (map (\<lambda>f. content_at gf m (resolve_path m f)) (insertion_order (map file_path chunks)))"
  by (simp add: render_state render_files fold_render_file_parse_calls merge_chunks_empty
      comp_def)

lemma render_no_read:
  assumes "\<forall>ch \<in> set chunks. file_cache m (resolve_path m (file_path ch)) \<noteq> None"
  shows "get_file_calls (snd (render gf parse m chunks)) = get_file_calls m"
proof -
  have "\<forall>e \<in> set (map (\<lambda>f. (f, filter (\<lambda>c. file_path c = f) (merge_chunks chunks)))
                     (insertion_order (map file_path chunks))).
          file_cache m (resolve_path m (fst e)) \<noteq> None"
    using assms by auto
  then show ?thesis
    by (simp only: render_state render_files fold_render_file_no_read split: if_splits) simp
qed

lemma get_nearby_calls_match:
  "calls_match_cache m \<Longrightarrow> calls_match_cache (snd (get_nearby_code_context gf parse m path line w))"
  by (simp add: get_nearby_state read_file_calls_match)

lemma get_nearby_consistent:
  assumes "cache_consistent parse m"
  shows "cache_consistent parse (snd (get_nearby_code_context gf parse m path line w))"
proof -
  let ?rp = "resolve_path m path"
  let ?m1 = "snd (read_file gf m ?rp)"
  have c1: "cache_consistent parse ?m1" by (rule read_file_consistent [OF assms])
  have f: "file_cache ?m1 ?rp = Some (content_at gf m ?rp)" by (rule read_file_cached)
  have p: "parse_cache ?m1 = parse_cache m" by (simp add: read_file_keeps)
  have "cache_consistent parse
          (?m1\<lparr>parse_cache := (parse_cache m)(?rp \<mapsto> parse (content_at gf m ?rp))\<rparr>)"
    using c1 f p unfolding cache_consistent_def by auto
  with c1 show ?thesis by (simp add: get_nearby_state)
qed

lemma reachable_manager_invariant:
  "reachable_manager parse m \<Longrightarrow> calls_match_cache m \<and> cache_consistent parse m"
proof (induction rule: reachable_manager.induct)
  case (m_new d)
  show ?case by (simp add: new_manager_def calls_match_cache_def cache_consistent_def)
next
  case (m_nearby m gf path line w)
  then show ?case by (simp add: get_nearby_calls_match get_nearby_consistent)
next
  case (m_lines m gf path a b)
  then show ?case by (simp add: get_code_lines_state read_file_calls_match read_file_consistent)
next
  case (m_render m gf chunks)
  show ?case
    by (rule render_invariant [where P = "\<lambda>m. calls_match_cache m \<and> cache_consistent parse m"])
       (simp_all add: m_render.IH read_file_calls_match read_file_consistent)
qed

lemma get_nearby_parse_cached:
  assumes "cache_consistent parse m" and "content_at gf m (resolve_path m path) \<noteq> []"
  shows "parse_cache (snd (get_nearby_code_context gf parse m path line w)) (resolve_path m path)
           = Some (parse (content_at gf m (resolve_path m path)))"
proof (cases "parse_cache m (resolve_path m path)")
  case None
  with assms(2) show ?thesis by (simp add: get_nearby_state)
next
  case (Some t)
  with assms(1) obtain c where c: "file_cache m (resolve_path m path) = Some c" "t = parse c"
    unfolding cache_consistent_def by blast
  then have "content_at gf m (resolve_path m path) = c" by (simp add: content_at_def)
  with Some c show ?thesis by (simp add: get_nearby_state read_file_keeps)
qed

lemma merge_chunks_single: "merge_chunks [ch] = [ch\<lparr>lines := sort (remdups (lines ch))\<rparr>]"
  by (simp add: merge_chunks_def merge_step_def Let_def)

lemma render_single_cached:
  assumes "file_cache m (resolve_path m (file_path ch)) = Some c"
  shows "fst (render gf parse m [ch]) =
     (if splitlines c = [] \<or>
         fst (collect_needed_lines parse m [ch\<lparr>lines := sort (remdups (lines ch))\<rparr>] c) = []
      then []
      else ''## File: `'' @ file_path ch @ ''`\<newline>'' @
           render_lines (splitlines c)
             (sort (remdups (fst (collect_needed_lines parse m
                                    [ch\<lparr>lines := sort (remdups (lines ch))\<rparr>] c))))
             (eof ch))"
  using assms
  by (simp add: render_def merge_chunks_single group_step_def render_file_def Let_def split_beta
      read_file_def)

text \<open>
  Claim C9, as amended: for every resolved file path the manager invokes its
  \<open>get_file_fn\<close> delegate at most once. In every manager that the three operations produce
  from a fresh one, the record of the delegate calls names each cached path once and no
  other path; an operation calls the delegate for the path it resolves exactly when the
  path is not cached, and \<open>render\<close> calls it for no cached path. After a path has been read,
  \<open>get_nearby_code_context\<close>, \<open>get_code_lines\<close> and \<open>render\<close> use the cached first-read
  content even if the file has since been modified: two delegates that differ only on
  cached paths give the same results and states, a chunk of a cached file is rendered from
  the cached content, and no operation removes or changes a cache entry. The cached parse
  is used by \<open>get_nearby_code_context\<close> only: it calls the parser for a path once, on the
  first non-empty content, stores the tree and ignores the parser afterwards.
  \<open>get_code_lines\<close> neither parses nor touches the parse cache. \<open>render\<close> does not read or
  fill the parse cache: on every call it has the cached content of every file it shows,
  one after the other in the order in which the files first occur, parsed again.
\<close>

theorem file_read_at_most_once:
  assumes "reachable_manager parse m"
  shows
    "distinct (get_file_calls m) \<and> set (get_file_calls m) = dom (file_cache m) \<and>
     cache_consistent parse m \<and>
     get_file_calls (snd (get_nearby_code_context gf parse m path line w)) =
       get_file_calls m @
       (if file_cache m (resolve_path m path) = None then [resolve_path m path] else []) \<and>
     get_file_calls (snd (get_code_lines gf m path a b)) =
       get_file_calls m @
       (if file_cache m (resolve_path m path) = None then [resolve_path m path] else []) \<and>
     ((\<forall>ch \<in> set chunks. file_cache m (resolve_path m (file_path ch)) \<noteq> None) \<longrightarrow>
        get_file_calls (snd (render gf parse m chunks)) = get_file_calls m) \<and>
     (agree_uncached gf gf' m \<longrightarrow>
        get_nearby_code_context gf parse m path line w =
          get_nearby_code_context gf' parse m path line w \<and>
        get_code_lines gf m path a b = get_code_lines gf' m path a b \<and>
        render gf parse m chunks = render gf' parse m chunks) \<and>
     (file_cache m (resolve_path m (file_path ch)) = Some c \<longrightarrow>
        fst (render gf parse m [ch]) =
          (if splitlines c = [] \<or>
              fst (collect_needed_lines parse m [ch\<lparr>lines := sort (remdups (lines ch))\<rparr>] c) = []
           then []
           else ''## File: `'' @ file_path ch @ ''`\<newline>'' @
                render_lines (splitlines c)
                  (sort (remdups (fst (collect_needed_lines parse m
                                         [ch\<lparr>lines := sort (remdups (lines ch))\<rparr>] c))))
                  (eof ch))) \<and>
     parse_calls (snd (get_nearby_code_context gf parse m path line w)) =
       parse_calls m @
       (if content_at gf m (resolve_path m path) \<noteq> [] \<and> parse_cache m (resolve_path m path) = None
        then [content_at gf m (resolve_path m path)] else []) \<and>
     (content_at gf m (resolve_path m path) \<noteq> [] \<longrightarrow>
        parse_cache (snd (get_nearby_code_context gf parse m path line w)) (resolve_path m path)
          = Some (parse (content_at gf m (resolve_path m path)))) \<and>
     (parse_cache m (resolve_path m path) \<noteq> None \<longrightarrow>
        get_nearby_code_context gf parse m path line w =
          get_nearby_code_context gf parse' m path line w) \<and>
     parse_calls (snd (get_code_lines gf m path a b)) = parse_calls m \<and>
     parse_cache (snd (get_code_lines gf m path a b)) = parse_cache m \<and>
     parse_cache (snd (render gf parse m chunks)) = parse_cache m \<and>
     parse_calls (snd (render gf parse m chunks)) =
       parse_calls m @
       filter (\<lambda>c. splitlines c \<noteq> [])
         (map (\<lambda>f. content_at gf m (resolve_path m f)) (insertion_order (map file_path chunks))) \<and>
     (file_cache m q = Some c' \<longrightarrow>
        file_cache (snd (get_nearby_code_context gf parse m path line w)) q = Some c' \<and>
        file_cache (snd (get_code_lines gf m path a b)) q = Some c' \<and>
        file_cache (snd (render gf parse m chunks)) q = Some c') \<and>
     (parse_cache m q = Some t \<longrightarrow>
        parse_cache (snd (get_nearby_code_context gf parse m path line w)) q = Some t)"
proof -
  from reachable_manager_invariant [OF assms]
  have i: "calls_match_cache m" and cc: "cache_consistent parse m" by simp_all
  have k1: "distinct (get_file_calls m) \<and> set (get_file_calls m) = dom (file_cache m)"
    using i by (simp add: calls_match_cache_def)
  have k2: "get_file_calls (snd (get_nearby_code_context gf parse m path line w)) =
       get_file_calls m @
       (if file_cache m (resolve_path m path) = None then [resolve_path m path] else [])"
    by (simp add: get_nearby_state read_file_calls)
  have k3: "get_file_calls (snd (get_code_lines gf m path a b)) =
       get_file_calls m @
       (if file_cache m (resolve_path m path) = None then [resolve_path m path] else [])"
    by (simp add: get_code_lines_state read_file_calls)
  have k4: "parse_calls (snd (get_nearby_code_context gf parse m path line w)) =
       parse_calls m @
       (if content_at gf m (resolve_path m path) \<noteq> [] \<and> parse_cache m (resolve_path m path) = None
        then [content_at gf m (resolve_path m path)] else [])"
    by (auto simp: get_nearby_state read_file_keeps)
  have k5: "parse_cache m (resolve_path m path) \<noteq> None \<longrightarrow>
        get_nearby_code_context gf parse m path line w =
          get_nearby_code_context gf parse' m path line w"
    using get_nearby_cached_parse [of m path _ gf parse line w parse'] by blast
  have k6: "parse_calls (snd (get_code_lines gf m path a b)) = parse_calls m \<and>
     parse_cache (snd (get_code_lines gf m path a b)) = parse_cache m"
    by (simp add: get_code_lines_state read_file_keeps)
  have k7: "parse_cache (snd (render gf parse m chunks)) = parse_cache m"
    by (rule render_invariant [where P = "\<lambda>m'. parse_cache m' = parse_cache m"])
       (simp_all add: read_file_keeps)
  have k8: "file_cache m q = Some c' \<longrightarrow>
        file_cache (snd (get_nearby_code_context gf parse m path line w)) q = Some c' \<and>
        file_cache (snd (get_code_lines gf m path a b)) q = Some c' \<and>
        file_cache (snd (render gf parse m chunks)) q = Some c'"
  proof
    assume f: "file_cache m q = Some c'"
    have "file_cache (snd (render gf parse m chunks)) q = Some c'"
      by (rule render_invariant [where P = "\<lambda>m'. file_cache m' q = Some c'"])
         (simp_all add: f read_file_keeps)
    then show "file_cache (snd (get_nearby_code_context gf parse m path line w)) q = Some c' \<and>
        file_cache (snd (get_code_lines gf m path a b)) q = Some c' \<and>
        file_cache (snd (render gf parse m chunks)) q = Some c'"
      using f by (simp add: get_nearby_state get_code_lines_state read_file_keeps)
  qed
  have k9: "parse_cache m q = Some t \<longrightarrow>
        parse_cache (snd (get_nearby_code_context gf parse m path line w)) q = Some t"
    by (auto simp: get_nearby_state read_file_keeps)
  show ?thesis
    using k1 cc k2 k3 k4 k5 k6 k7 k8 k9
      render_no_read [of chunks m gf parse]
      get_nearby_agree [of gf gf' m parse path line w]
      get_code_lines_agree [of gf gf' m path a b]
      render_agree [of gf gf' m parse chunks]
      render_single_cached [of m ch c gf parse]
      get_nearby_parse_cached [OF cc, of gf path line w]
      render_parse_calls [of gf parse m chunks]
    by blast
qed

lemma after_nearby_state:
  "after_nearby =
     \<lparr>cwd = [], file_cache = [''a.py'' \<mapsto> one_line], parse_cache = [''a.py'' \<mapsto> one_line_tree],
      get_file_calls = [''a.py''], parse_calls = [one_line]\<rparr>"
proof -
  have "one_line \<noteq> []" by (simp add: one_line_def)
  then show ?thesis
    by (simp add: after_nearby_def get_nearby_state read_file_state new_manager_def
        resolve_path_def content_at_def)
qed

lemma after_nearby_reachable: "reachable_manager (\<lambda>_. one_line_tree) after_nearby"
  unfolding after_nearby_def by (intro m_nearby m_new)

lemma after_nearby_content:
  "content_at gf after_nearby (resolve_path after_nearby ''a.py'') = one_line"
  by (simp add: after_nearby_state content_at_def resolve_path_def)

text \<open>
  Claim C9, as stated, fails for \<open>render\<close> and the cached parse. After one
  \<open>get_nearby_code_context\<close> call the tree of \<open>a.py\<close> is in the parse cache and the parser
  has been called once. Rendering a chunk of \<open>a.py\<close> calls the parser on the cached
  content a second time and leaves the parse cache as it was.
\<close>

theorem render_parses_cached_file_again:
  "parse_cache after_nearby ''a.py'' = Some one_line_tree \<and>
   parse_calls after_nearby = [one_line] \<and>
   parse_calls (snd (render (\<lambda>_. one_line) (\<lambda>_. one_line_tree) after_nearby [chunk_a]))
     = [one_line, one_line] \<and>
   parse_cache (snd (render (\<lambda>_. one_line) (\<lambda>_. one_line_tree) after_nearby [chunk_a]))
     = parse_cache after_nearby"
proof -
  have i: "insertion_order (map file_path [chunk_a]) = [''a.py'']"
    by (simp add: insertion_order_def chunk_a_def)
  have p: "parse_calls (snd (render (\<lambda>_. one_line) (\<lambda>_. one_line_tree) after_nearby [chunk_a]))
     = [one_line, one_line]"
    unfolding render_parse_calls i
    by (simp add: after_nearby_content one_line_splitlines) (simp add: after_nearby_state)
  have c: "parse_cache (snd (render (\<lambda>_. one_line) (\<lambda>_. one_line_tree) after_nearby [chunk_a]))
     = parse_cache after_nearby"
    by (rule render_invariant [where P = "\<lambda>m'. parse_cache m' = parse_cache after_nearby"])
       (simp_all add: read_file_keeps)
  from p c show ?thesis by (simp add: after_nearby_state)
qed

text \<open>
  Claim C9, witness: \<open>after_nearby\<close> has read and parsed \<open>a.py\<close>; then every file of the
  sandbox changes. A second \<open>get_nearby_code_context\<close>, a \<open>get_code_lines\<close> and a \<open>render\<close>
  for \<open>a.py\<close> make no delegate call, the rendered text shows the line read first, the
  second \<open>get_nearby_code_context\<close> makes no parser call and \<open>render\<close> makes one.
\<close>

theorem file_read_at_most_once_witness:
  "reachable_manager (\<lambda>_. one_line_tree) after_nearby \<and>
   file_cache after_nearby (resolve_path after_nearby (file_path chunk_a)) = Some one_line \<and>
   get_file_calls after_nearby = [''a.py''] \<and>
   get_file_calls (snd (get_nearby_code_context (\<lambda>_. ''changed = 0\<newline>'') (\<lambda>_. one_line_tree)
                          after_nearby ''a.py'' 1 100)) = [''a.py''] \<and>
   get_file_calls (snd (get_code_lines (\<lambda>_. ''changed = 0\<newline>'') after_nearby ''a.py'' 1 10))
     = [''a.py''] \<and>
   get_file_calls (snd (render (\<lambda>_. ''changed = 0\<newline>'') (\<lambda>_. one_line_tree) after_nearby [chunk_a]))
     = [''a.py''] \<and>
   fst (render (\<lambda>_. ''changed = 0\<newline>'') (\<lambda>_. one_line_tree) after_nearby [chunk_a])
     = ''## File: `a.py`\<newline> 1 x = 1'' \<and>
   parse_calls (snd (get_nearby_code_context (\<lambda>_. ''changed = 0\<newline>'') (\<lambda>_. one_line_tree)
                       after_nearby ''a.py'' 1 100)) = [one_line] \<and>
   parse_calls (snd (render (\<lambda>_. ''changed = 0\<newline>'') (\<lambda>_. one_line_tree) after_nearby [chunk_a]))
     = [one_line, one_line] \<and>
   file_cache (snd (get_code_lines (\<lambda>_. ''changed = 0\<newline>'') after_nearby ''a.py'' 1 10)) ''a.py''
     = Some one_line"
proof -
  have s: "file_cache after_nearby (resolve_path after_nearby ''a.py'') = Some one_line"
    "parse_cache after_nearby (resolve_path after_nearby ''a.py'') = Some one_line_tree"
    "get_file_calls after_nearby = [''a.py'']" "parse_calls after_nearby = [one_line]"
    "file_cache after_nearby ''a.py'' = Some one_line"
    by (simp_all add: after_nearby_state resolve_path_def)
  have f: "file_path chunk_a = ''a.py''" "eof chunk_a = False"
    "chunk_a\<lparr>lines := sort (remdups (lines chunk_a))\<rparr> = chunk_a"
    by (simp_all add: chunk_a_def)
  have i: "insertion_order (map file_path [chunk_a]) = [''a.py'']"
    by (simp add: insertion_order_def chunk_a_def)
  have a: "\<forall>ch \<in> set [chunk_a]. file_cache after_nearby (resolve_path after_nearby (file_path ch)) \<noteq> None"
    by (simp add: f s)
  note w = file_read_at_most_once [OF after_nearby_reachable,
      where gf = "\<lambda>_. ''changed = 0\<newline>''" and path = "''a.py''" and line = 1 and w = 100
        and a = 1 and b = 10 and chunks = "[chunk_a]" and ch = chunk_a and c = one_line
        and q = "''a.py''" and c' = one_line]
  from w a s f i after_nearby_reachable show ?thesis
    by (simp add: after_nearby_content one_line_splitlines one_line_needed_a one_line_rendered)
qed

section \<open>Properties of the agent loop\<close>

subsection \<open>Reflection\<close>

lemma then_do_am:
  assumes "action_manager (snd r) = am"
    and "\<And>v a1. action_manager a1 = am \<Longrightarrow> action_manager (snd (f v a1)) = am"
  shows "action_manager (snd (then_do r f)) = am"
  using assms by (cases r; cases "fst r") (auto simp: then_do_def)

lemma env_execute_uncaught_am:
  "action_manager (snd (env_execute_uncaught x c a)) = action_manager a"
  by (simp add: env_execute_uncaught_def run_env_def split: prod.splits exec_result.splits)

lemma get_git_diff_am: "action_manager (snd (get_git_diff x a)) = action_manager a"
  unfolding get_git_diff_def
  by (intro then_do_am) (simp_all add: env_execute_uncaught_am)

lemma apply_patch_am: "action_manager (snd (apply_patch x d a)) = action_manager a"
  unfolding apply_patch_def
  by (intro then_do_am) (simp_all add: env_execute_uncaught_am)

lemma sync_version_control_am: "action_manager (snd (sync_version_control x a)) = action_manager a"
proof (cases "has_real_current (action_manager a)")
  case False
  then show ?thesis by (simp add: sync_version_control_def)
next
  case True
  have "action_manager (snd (then_do (get_git_diff x a) (\<lambda>current_diff a1.
              if current_diff = code_change (heap (action_manager a1) (current (action_manager a))) then (Inr (), a1)
              else then_do (env_execute_uncaught x ''git reset --hard HEAD && git clean -fd'' a1) (\<lambda>_ a2.
                     if code_change (heap (action_manager a2) (current (action_manager a))) \<noteq> []
                     then apply_patch x (code_change (heap (action_manager a2) (current (action_manager a)))) a2
                     else (Inr (), a2))))) = action_manager a"
  proof (rule then_do_am [OF get_git_diff_am])
    fix v :: string and a1 :: "'a Agent"
    assume a1: "action_manager a1 = action_manager a"
    have "action_manager (snd (then_do (env_execute_uncaught x ''git reset --hard HEAD && git clean -fd'' a1) (\<lambda>_ a2.
                     if code_change (heap (action_manager a2) (current (action_manager a))) \<noteq> []
                     then apply_patch x (code_change (heap (action_manager a2) (current (action_manager a)))) a2
                     else (Inr (), a2)))) = action_manager a"
      by (rule then_do_am) (simp_all add: env_execute_uncaught_am a1 apply_patch_am)
    with a1 show "action_manager (snd (if v = code_change (heap (action_manager a1) (current (action_manager a))) then (Inr (), a1)
              else then_do (env_execute_uncaught x ''git reset --hard HEAD && git clean -fd'' a1) (\<lambda>_ a2.
                     if code_change (heap (action_manager a2) (current (action_manager a))) \<noteq> []
                     then apply_patch x (code_change (heap (action_manager a2) (current (action_manager a)))) a2
                     else (Inr (), a2)))) = action_manager a"
      by simp
  qed
  with True show ?thesis by (simp add: sync_version_control_def Let_def)
qed

lemma update_tool_status_am: "action_manager (update_tool_status a) = action_manager a"
  by (simp add: update_tool_status_def)

lemma process_reflection_am:
  "action_manager (snd (process_reflection x content a)) =
     (let decision = lower (strip (parse_tag content ''decision''));
          am1 = set_reflection (decision \<noteq> ''reject'') (parse_tag content ''lessons'')
                  (parse_tag content ''summary'') (action_manager a)
      in if decision \<noteq> ''reject'' then commit_admissible am1 else snd (commit_invalid am1))"
  by (simp add: process_reflection_def Let_def sync_version_control_am update_tool_status_am
      split_beta)

lemma no_tag_no_body: "str_partition (''<'' @ tag @ ''>'') content = None \<Longrightarrow> parse_tag content tag = []"
  by (simp add: parse_tag_def tag_body_def)

lemma lower_reject_nonempty: "lower (strip []) \<noteq> ''reject''"
  by (simp add: lower_def strip_def lstrip_def rstrip_def)

text \<open>
  Claim C10: whenever a temp node \<open>t\<close> is pending, \<open>_process_reflection\<close> takes the text
  of the first \<open><decision>\<close> tag, trimmed and lowercased. A response without a
  \<open><decision>\<close> tag gives a decision other than \<open>reject\<close>. For every decision other than
  exactly \<open>reject\<close> the verdict \<open>valid = true\<close> is stored on \<open>t\<close> and \<open>t\<close> is committed as
  an admissible child of \<open>current\<close>: it is appended to \<open>current.children\<close>, becomes
  \<open>current\<close>, and \<open>invalid_ops\<close> is untouched. Only the decision \<open>reject\<close> stores
  \<open>valid = false\<close> and appends \<open>t\<close> to \<open>current.invalid_ops\<close>, leaving \<open>children\<close> and
  \<open>current\<close> as they were. In both cases no temp node is pending afterwards. This holds
  for the state left behind whether or not the later sandbox calls of the version-control
  sync raise.
\<close>

theorem process_reflection_verdict:
  "temp_node (action_manager a) = Some t \<Longrightarrow>
   (let am = action_manager a; cur = current am;
        decision = lower (strip (parse_tag content ''decision''));
        am' = action_manager (snd (process_reflection x content a))
    in (tag_body ''decision'' content = None \<longrightarrow> decision \<noteq> ''reject'') \<and>
       (decision \<noteq> ''reject'' \<longrightarrow>
          valid (heap am' t) = Some True \<and> parent (heap am' t) = Some cur \<and>
          children (heap am' cur) = children (heap am cur) @ [t] \<and>
          invalid_ops (heap am' cur) = invalid_ops (heap am cur) \<and>
          current am' = t \<and> temp_node am' = None) \<and>
       (decision = ''reject'' \<longrightarrow>
          valid (heap am' t) = Some False \<and> parent (heap am' t) = Some cur \<and>
          invalid_ops (heap am' cur) = invalid_ops (heap am cur) @ [t] \<and>
          children (heap am' cur) = children (heap am cur) \<and>
          current am' = cur \<and> temp_node am' = None))"
proof -
  assume t: "temp_node (action_manager a) = Some t"
  have none: "tag_body ''decision'' content = None \<Longrightarrow>
      lower (strip (parse_tag content ''decision'')) \<noteq> ''reject''"
    by (simp add: parse_tag_def lower_reject_nonempty)
  show ?thesis
    using t none
    by (auto simp add: process_reflection_am Let_def set_reflection_def commit_admissible_def
        commit_invalid_def)
qed

lemma pending_agent_temp: "temp_node (action_manager pending_agent) = Some 2"
  by (simp add: pending_agent_def tree_run_defs)

text \<open>Claim C10, witness: on \<open>pending_agent\<close> the answer \<open>Accept\<close> and a response without
  tags commit node 2 as the new current node; \<open>REJECT\<close> in capitals with spaces puts it
  into the \<open>invalid_ops\<close> of node 1.\<close>

theorem process_reflection_verdict_witness:
  "temp_node (action_manager pending_agent) = Some 2 \<and>
   current (action_manager (snd (process_reflection quiet_externals
       ''<decision>Accept</decision><summary>ok</summary>'' pending_agent))) = 2 \<and>
   valid (heap (action_manager (snd (process_reflection quiet_externals
       ''<decision>Accept</decision><summary>ok</summary>'' pending_agent))) 2) = Some True \<and>
   invalid_ops (heap (action_manager (snd (process_reflection quiet_externals
       ''<decision> REJECT </decision>'' pending_agent))) 1) = [2] \<and>
   current (action_manager (snd (process_reflection quiet_externals
       ''no tags at all'' pending_agent))) = 2"
proof -
  have d1: "lower (strip (parse_tag ''<decision>Accept</decision><summary>ok</summary>'' ''decision'')) = ''accept''"
    by (simp add: parse_tag_def tag_body_def strip_def lstrip_def rstrip_def is_space_def
        lower_def lower_char_def char_of_eq_iff)
  have d2: "lower (strip (parse_tag ''<decision> REJECT </decision>'' ''decision'')) = ''reject''"
    by (simp add: parse_tag_def tag_body_def strip_def lstrip_def rstrip_def is_space_def
        lower_def lower_char_def char_of_eq_iff)
  have d3: "tag_body ''decision'' ''no tags at all'' = None"
    by (simp add: tag_body_def)
  have c: "current (action_manager pending_agent) = 1"
    "invalid_ops (heap (action_manager pending_agent) 1) = []"
    by (simp_all add: pending_agent_def tree_run_defs)
  note w = process_reflection_verdict [OF pending_agent_temp, of _ quiet_externals, unfolded Let_def]
  from w [of "''<decision>Accept</decision><summary>ok</summary>''"]
       w [of "''<decision> REJECT </decision>''"] w [of "''no tags at all''"]
       d1 d2 d3 c pending_agent_temp
  show ?thesis by simp
qed


subsection \<open>Failures while an action is processed\<close>

text \<open>
  Executing the actions of one response changes nothing of the tree but three fields of the
  active node: the code chunks, the tool status and the code change. This holds for every
  outcome of the execution, a raised exception included, and it is proved function by
  function along the call graph of \<open>_execute_actions\<close>.
\<close>

lemma annotates_refl: "annotates t am am"
proof -
  have "am = am\<lparr>heap := (heap am)(t := (heap am t)
      \<lparr>code_chunks := code_chunks (heap am t), tool_status := tool_status (heap am t),
       code_change := code_change (heap am t)\<rparr>)\<rparr>"
    by simp
  then show ?thesis unfolding annotates_def by blast
qed

lemma annotates_trans: "annotates t am am1 \<Longrightarrow> annotates t am1 am2 \<Longrightarrow> annotates t am am2"
  unfolding annotates_def by (elim exE) (rule exI, rule exI, rule exI, simp)

lemma annotates_fields:
  assumes "annotates t am am'"
  shows "temp_node am' = temp_node am" "current am' = current am" "sentinel am' = sentinel am"
    "next_ref am' = next_ref am" "all_nodes am' = all_nodes am" "max_invalid am' = max_invalid am"
    "n \<noteq> t \<Longrightarrow> heap am' n = heap am n"
    "observations (heap am' t) = observations (heap am t)"
    "valid (heap am' t) = valid (heap am t)"
    "children (heap am' t) = children (heap am t)"
    "parent (heap am' t) = parent (heap am t)"
    "invalid_ops (heap am' t) = invalid_ops (heap am t)"
    "thoughts (heap am' t) = thoughts (heap am t)"
    "action (heap am' t) = action (heap am t)"
  using assms unfolding annotates_def by auto

lemma annotates_active: "annotates t am am' \<Longrightarrow> active_node am' = active_node am"
  using annotates_fields(1,2,3) [of t am am']
  by (simp add: active_node_def has_real_current_def split: option.splits)

lemma touches_only_refl: "touches_only t a a"
  by (simp add: touches_only_def annotates_refl)

lemma touches_only_trans: "touches_only t a a1 \<Longrightarrow> touches_only t a1 a2 \<Longrightarrow> touches_only t a a2"
  unfolding touches_only_def using annotates_trans by fastforce

lemma touches_only_same_manager:
  "action_manager a' = action_manager a \<Longrightarrow> n_operations a' = n_operations a \<Longrightarrow> touches_only t a a'"
  by (simp add: touches_only_def annotates_refl)

lemma touches_only_active:
  "touches_only t a a' \<Longrightarrow> active_node (action_manager a') = active_node (action_manager a)"
  unfolding touches_only_def using annotates_active by blast

lemma then_do_rel:
  assumes "R (snd r)" and "\<And>v a1. R a1 \<Longrightarrow> R (snd (f v a1))"
  shows "R (snd (then_do r f))"
  using assms by (cases r; cases "fst r") (auto simp: then_do_def)

lemma update_node_chunks:
  "touches_only t a (update_node t (\<lambda>node. node\<lparr>code_chunks := g node\<rparr>) a)"
  unfolding touches_only_def annotates_def update_node_def
  by (simp, rule exI [of _ "g (heap (action_manager a) t)"],
      rule exI [of _ "tool_status (heap (action_manager a) t)"],
      rule exI [of _ "code_change (heap (action_manager a) t)"], simp)

lemma update_node_status:
  "touches_only t a (update_node t (\<lambda>node. node\<lparr>tool_status := g node\<rparr>) a)"
  unfolding touches_only_def annotates_def update_node_def
  by (simp, rule exI [of _ "code_chunks (heap (action_manager a) t)"],
      rule exI [of _ "g (heap (action_manager a) t)"],
      rule exI [of _ "code_change (heap (action_manager a) t)"], simp)

lemma update_node_change:
  "touches_only t a (update_node t (\<lambda>node. node\<lparr>code_change := g node\<rparr>) a)"
  unfolding touches_only_def annotates_def update_node_def
  by (simp, rule exI [of _ "code_chunks (heap (action_manager a) t)"],
      rule exI [of _ "tool_status (heap (action_manager a) t)"],
      rule exI [of _ "g (heap (action_manager a) t)"], simp)

lemma run_env_touches: "touches_only t a (snd (run_env x c a))"
  by (rule touches_only_same_manager) (simp_all add: run_env_def split: prod.splits)

lemma env_execute_uncaught_touches: "touches_only t a (snd (env_execute_uncaught x c a))"
  by (rule touches_only_same_manager)
     (simp_all add: env_execute_uncaught_def run_env_def split: prod.splits exec_result.splits)

lemma get_git_diff_touches: "touches_only t a (snd (get_git_diff x a))"
  unfolding get_git_diff_def
proof (rule then_do_rel [where R = "touches_only t a"])
  show "touches_only t a (snd (env_execute_uncaught x ''git add -N .'' a))"
    by (rule env_execute_uncaught_touches)
next
  fix v :: "string \<times> int" and a1 :: "'a Agent"
  assume r: "touches_only t a a1"
  show "touches_only t a (snd (then_do (env_execute_uncaught x ''git --no-pager diff HEAD'' a1)
          (\<lambda>result a2. (Inr (if snd result \<noteq> 0 then [] else fst result), a2))))"
  proof (rule then_do_rel [where R = "touches_only t a"])
    show "touches_only t a (snd (env_execute_uncaught x ''git --no-pager diff HEAD'' a1))"
      by (rule touches_only_trans [OF r env_execute_uncaught_touches])
  qed simp
qed

lemma call_get_nearby_touches: "touches_only t a (snd (call_get_nearby x p l w a))"
  by (rule touches_only_same_manager) (simp_all add: call_get_nearby_def split: prod.splits)

lemma call_get_code_lines_touches: "touches_only t a (snd (call_get_code_lines x p s e a))"
  by (rule touches_only_same_manager) (simp_all add: call_get_code_lines_def split: prod.splits)

lemma handle_code_chunk_touches:
  "active_node (action_manager a) = Some t \<Longrightarrow> touches_only t a (snd (handle_code_chunk chunk a))"
  by (simp add: handle_code_chunk_def Let_def update_node_chunks)


lemma handle_code_chunk_result:
  "active_node (action_manager a) = Some t \<Longrightarrow> handle_code_chunk chunk a = (raw, a2)
     \<Longrightarrow> touches_only t a a2"
  using handle_code_chunk_touches [of a t chunk] by simp

lemma nearby_then_chunk:
  assumes act: "active_node (action_manager a) = Some t"
  shows "touches_only t a
           (snd (case call_get_nearby x p l w a of
                   (chunk, a1) \<Rightarrow>
                     (case handle_code_chunk chunk a1 of (raw, a2) \<Rightarrow> (Inr (Some raw), a2))))"
proof -
  obtain chunk a1 where c: "call_get_nearby x p l w a = (chunk, a1)" by (cases "call_get_nearby x p l w a")
  obtain raw a2 where h: "handle_code_chunk chunk a1 = (raw, a2)" by (cases "handle_code_chunk chunk a1")
  have r1: "touches_only t a a1" using call_get_nearby_touches [of t a x p l w] c by simp
  have "active_node (action_manager a1) = Some t" using touches_only_active [OF r1] act by simp
  from handle_code_chunk_result [OF this h] r1 have "touches_only t a a2"
    using touches_only_trans by blast
  then show ?thesis by (simp add: c h)
qed

lemma lines_then_chunk:
  assumes act: "active_node (action_manager a) = Some t"
  shows "touches_only t a
           (snd (case call_get_code_lines x p s e a of
                   (chunk, a1) \<Rightarrow>
                     (case handle_code_chunk chunk a1 of (raw, a2) \<Rightarrow> (Inr (Some raw), a2))))"
proof -
  obtain chunk a1 where c: "call_get_code_lines x p s e a = (chunk, a1)"
    by (cases "call_get_code_lines x p s e a")
  obtain raw a2 where h: "handle_code_chunk chunk a1 = (raw, a2)" by (cases "handle_code_chunk chunk a1")
  have r1: "touches_only t a a1" using call_get_code_lines_touches [of t a x p s e] c by simp
  have "active_node (action_manager a1) = Some t" using touches_only_active [OF r1] act by simp
  from handle_code_chunk_result [OF this h] r1 have "touches_only t a a2"
    using touches_only_trans by blast
  then show ?thesis by (simp add: c h)
qed

lemma run_builtin_tool_touches:
  assumes act: "active_node (action_manager a) = Some t"
  shows "touches_only t a (snd (run_builtin_tool x command a))"
  unfolding run_builtin_tool_def Let_def
  by (simp add: touches_only_refl nearby_then_chunk [OF act] lines_then_chunk [OF act]
           split: list.splits option.splits)

lemma execute_command_touches:
  assumes act: "active_node (action_manager a) = Some t"
  shows "touches_only t a (snd (execute_command x command a))"
  unfolding execute_command_def
proof (rule then_do_rel [where R = "touches_only t a"])
  show "touches_only t a (snd (run_builtin_tool x command a))"
    by (rule run_builtin_tool_touches [OF act])
next
  fix v :: "(string \<times> int) option" and a1 :: "'a Agent"
  assume r: "touches_only t a a1"
  have e: "touches_only t a (snd (run_env x command a1))"
    by (rule touches_only_trans [OF r run_env_touches])
  show "touches_only t a (snd (case v of
          Some raw \<Rightarrow> (Inr raw, a1)
        | None \<Rightarrow>
            (case run_env x command a1 of
               (TimedOut output_text, a2) \<Rightarrow>
                 (Inl (ExecutionTimeoutError (timeout_message x output_text)), a2)
             | (Completed out rc, a2) \<Rightarrow>
                 (case check_submission out of
                    Inl e \<Rightarrow> (Inl e, a2)
                  | Inr _ \<Rightarrow> (Inr (out, rc), a2)))))"
    using r e by (cases "run_env x command a1")
      (auto split: option.splits exec_result.splits sum.splits)
qed

lemma fold_touches:
  assumes act: "active_node (action_manager a) = Some t"
    and step: "\<And>y b. active_node (action_manager b) = Some t \<Longrightarrow> touches_only t b (f y b)"
  shows "touches_only t a (fold f ys a)"
  using act
proof (induction ys arbitrary: a)
  case Nil
  then show ?case by (simp add: touches_only_refl)
next
  case (Cons y ys)
  have r1: "touches_only t a (f y a)" by (rule step [OF Cons.prems])
  have "active_node (action_manager (f y a)) = Some t"
    using touches_only_active [OF r1] Cons.prems by simp
  from Cons.IH [OF this] r1 show ?case using touches_only_trans by fastforce
qed

lemma attach_step_touches:
  assumes act: "active_node (action_manager b) = Some t"
  shows "touches_only t b
     ((\<lambda>(path, line_number) a1.
                  case line_number of
                    None \<Rightarrow> a1
                  | Some line \<Rightarrow>
                      if path = [] \<or> line < 1 then a1
                      else (case call_get_nearby x path line 100 a1 of
                              (chunk, a2) \<Rightarrow>
                                update_node t
                                  (\<lambda>node. node\<lparr>code_chunks := append_unique_code_chunk (code_chunks node) chunk\<rparr>)
                                  a2)) y b)"
proof -
  obtain path ln where y: "y = (path, ln)" by (cases y)
  show ?thesis
  proof (cases ln)
    case None
    then show ?thesis by (simp add: y touches_only_refl)
  next
    case (Some line)
    obtain chunk a2 where c: "call_get_nearby x path line 100 b = (chunk, a2)"
      by (cases "call_get_nearby x path line 100 b")
    have r1: "touches_only t b a2" using call_get_nearby_touches [of t b x path line 100] c by simp
    have "touches_only t b (update_node t
            (\<lambda>node. node\<lparr>code_chunks := append_unique_code_chunk (code_chunks node) chunk\<rparr>) a2)"
      by (rule touches_only_trans [OF r1 update_node_chunks])
    then show ?thesis by (simp add: y Some c touches_only_refl)
  qed
qed

lemma attach_code_context_chunks_touches:
  assumes act: "active_node (action_manager a) = Some t"
  shows "touches_only t a (attach_code_context_chunks x ctx a)"
proof (cases ctx)
  case None
  then show ?thesis by (simp add: attach_code_context_chunks_def touches_only_refl)
next
  case (Some contexts)
  show ?thesis
    unfolding attach_code_context_chunks_def Some act
    by (simp, rule fold_touches [OF act], rule attach_step_touches)
qed

lemma touches_only_installed:
  "touches_only t b a2 \<Longrightarrow> touches_only t b (a2\<lparr>installed_tools := v\<rparr>)"
  by (simp add: touches_only_def)

lemma apply_tool_status_updates_touches:
  assumes act: "active_node (action_manager a) = Some t"
  shows "touches_only t a (apply_tool_status_updates trs a)"
  unfolding apply_tool_status_updates_def Let_def act
  apply (rule fold_touches [OF act])
  subgoal for y b
    by (auto simp: touches_only_refl intro!: touches_only_installed update_node_status
             split: option.splits)
  done

lemma process_tool_response_touches:
  assumes act: "active_node (action_manager a) = Some t"
  shows "touches_only t a (snd (process_tool_response x raw a))"
proof -
  let ?a1 = "\<lambda>trs. fold (\<lambda>tr. attach_code_context_chunks x (code_context tr)) trs a"
  have r1: "touches_only t a (?a1 trs)" for trs
    by (rule fold_touches [OF act]) (rule attach_code_context_chunks_touches)
  have "active_node (action_manager (?a1 trs)) = Some t" for trs
    using touches_only_active [OF r1 [of trs]] act by simp
  then have "touches_only t (?a1 trs) (apply_tool_status_updates trs (?a1 trs))" for trs
    by (rule apply_tool_status_updates_touches)
  then have "touches_only t a (apply_tool_status_updates trs (?a1 trs))" for trs
    using r1 touches_only_trans by blast
  then show ?thesis
    by (simp add: process_tool_response_def Let_def touches_only_refl split: sum.splits)
qed

lemma execute_actions_loop_touches:
  "active_node (action_manager a) = Some t
     \<Longrightarrow> touches_only t a (snd (execute_actions_loop x actions obs rc a))"
proof (induction actions arbitrary: obs rc a)
  case Nil
  then show ?case by (simp add: touches_only_refl)
next
  case (Cons act rest)
  show ?case
    unfolding execute_actions_loop.simps
  proof (rule then_do_rel [where R = "touches_only t a"])
    show "touches_only t a (snd (execute_command x act a))"
      by (rule execute_command_touches [OF Cons.prems])
  next
    fix raw :: "string \<times> int" and a1 :: "'a Agent"
    assume r1: "touches_only t a a1"
    have act1: "active_node (action_manager a1) = Some t"
      using touches_only_active [OF r1] Cons.prems by simp
    show "touches_only t a (snd (then_do (process_tool_response x raw a1) (\<lambda>result a2.
       (let obs1 = obs @ [ActionObservation act
                            (''[returncode: '' @ str_int (snd result) @ '']\<newline>'' @ strip (fst result))]
        in if snd result \<noteq> 0 then (Inr (obs1, snd result), a2)
           else execute_actions_loop x rest obs1 (snd result) a2))))"
    proof (rule then_do_rel [where R = "touches_only t a"])
      show "touches_only t a (snd (process_tool_response x raw a1))"
        by (rule touches_only_trans [OF r1 process_tool_response_touches [OF act1]])
    next
      fix result :: "string \<times> int" and a2 :: "'a Agent"
      assume r2: "touches_only t a a2"
      have act2: "active_node (action_manager a2) = Some t"
        using touches_only_active [OF r2] Cons.prems by simp
      have "touches_only t a (snd (execute_actions_loop x rest obs' rc' a2))" for obs' rc'
        by (rule touches_only_trans [OF r2 Cons.IH [OF act2]])
      then show "touches_only t a (snd (let obs1 = obs @ [ActionObservation act
                            (''[returncode: '' @ str_int (snd result) @ '']\<newline>'' @ strip (fst result))]
        in if snd result \<noteq> 0 then (Inr (obs1, snd result), a2)
           else execute_actions_loop x rest obs1 (snd result) a2))"
        using r2 by (simp add: Let_def)
    qed
  qed
qed

lemma execute_actions_touches:
  assumes act: "active_node (action_manager a) = Some t"
  shows "touches_only t a (snd (execute_actions x actions a))"
  unfolding execute_actions_def
proof (rule then_do_rel [where R = "touches_only t a"])
  show "touches_only t a (snd (execute_actions_loop x actions [] 0 a))"
    by (rule execute_actions_loop_touches [OF act])
next
  fix result :: "ActionObservation list \<times> int" and a1 :: "'a Agent"
  assume r1: "touches_only t a a1"
  have act1: "active_node (action_manager a1) = Some t"
    using touches_only_active [OF r1] act by simp
  have "touches_only t a (snd (then_do (get_git_diff x a1) (\<lambda>diff a2.
             (Inr result, update_node t (\<lambda>node. node\<lparr>code_change := diff\<rparr>) a2))))"
  proof (rule then_do_rel [where R = "touches_only t a"])
    show "touches_only t a (snd (get_git_diff x a1))"
      by (rule touches_only_trans [OF r1 get_git_diff_touches])
  next
    fix diff :: string and a2 :: "'a Agent"
    assume r2: "touches_only t a a2"
    show "touches_only t a (snd (Inr result, update_node t (\<lambda>node. node\<lparr>code_change := diff\<rparr>) a2))"
      using touches_only_trans [OF r2 update_node_change] by simp
  qed
  then show "touches_only t a (snd (case active_node (action_manager a1) of
         None \<Rightarrow> (Inr result, a1)
       | Some active \<Rightarrow>
           then_do (get_git_diff x a1) (\<lambda>diff a2.
             (Inr result, update_node active (\<lambda>node. node\<lparr>code_change := diff\<rparr>) a2))))"
    by (simp add: act1)
qed


lemma then_do_raised:
  assumes "fst (then_do r f) = Inl e" and "\<And>v a1. fst (f v a1) \<noteq> Inl e"
  shows "then_do r f = r \<and> fst r = Inl e"
  using assms by (cases r; cases "fst r") (auto simp: then_do_def)

lemma process_action_raised:
  assumes ne: "parse_actions content \<noteq> []"
    and raised: "fst (process_action x content a) = Inl e"
  shows "touches_only (next_ref (action_manager a))
           (a\<lparr>action_manager := (action_manager a)
                 \<lparr>heap := (heap (action_manager a))(next_ref (action_manager a) :=
                     new_node (parse_tag content ''thoughts'') (join ''\<newline>'' (parse_actions content))
                       (if lower (strip (parse_tag content ''property'')) = ''exploitative''
                        then Some EXPLOITATIVE
                        else if lower (strip (parse_tag content ''property'')) = ''exploratory''
                        then Some EXPLORATORY else None)),
                  temp_node := Some (next_ref (action_manager a)),
                  all_nodes := all_nodes (action_manager a) @ [next_ref (action_manager a)],
                  next_ref := Suc (next_ref (action_manager a))\<rparr>,
               n_operations := Suc (n_operations a)\<rparr>)
           (snd (process_action x content a))"
proof -
  let ?t = "next_ref (action_manager a)"
  let ?p = "if lower (strip (parse_tag content ''property'')) = ''exploitative''
            then Some EXPLOITATIVE
            else if lower (strip (parse_tag content ''property'')) = ''exploratory''
            then Some EXPLORATORY else None"
  let ?am1 = "(action_manager a)
                 \<lparr>heap := (heap (action_manager a))(?t :=
                     new_node (parse_tag content ''thoughts'') (join ''\<newline>'' (parse_actions content)) ?p),
                  temp_node := Some ?t,
                  all_nodes := all_nodes (action_manager a) @ [?t],
                  next_ref := Suc ?t\<rparr>"
  let ?a0 = "a\<lparr>action_manager := ?am1, n_operations := Suc (n_operations a)\<rparr>"
  let ?f = "\<lambda>result a1. (Inr result :: error + ActionObservation list \<times> int,
                 a1\<lparr>action_manager := set_observation (fst result) (action_manager a1)\<rparr>)"
  have pa: "process_action x content a = then_do (execute_actions x (parse_actions content) ?a0) ?f"
    using ne by (simp add: process_action_def Let_def create_temp_node_def)
  have "then_do (execute_actions x (parse_actions content) ?a0) ?f
          = execute_actions x (parse_actions content) ?a0"
    using then_do_raised [of "execute_actions x (parse_actions content) ?a0" ?f e] raised
    unfolding pa by simp
  then have eq: "process_action x content a = execute_actions x (parse_actions content) ?a0"
    using pa by simp
  have "active_node (action_manager ?a0) = Some ?t" by (simp add: active_node_def)
  from execute_actions_touches [OF this, of x "parse_actions content"]
  show ?thesis unfolding eq .
qed

text \<open>
  Claim C2, as amended: of the two non-terminal failures of \<open>_process_action\<close>, only the
  format failure leaves the tree as it was. When no action is parsed, \<open>FormatError\<close> is
  raised before \<open>create_temp_node\<close> and the agent is unchanged. When the execution raises
  \<open>ExecutionTimeoutError\<close>, the exception leaves \<open>_execute_actions\<close> before
  \<open>set_observation\<close> is reached: the node made by \<open>create_temp_node\<close> is pending, it is
  registered in \<open>all_nodes\<close>, it carries the thoughts and the action but no observation and
  no verdict and is not linked to the tree yet, the operation counter has been incremented,
  and the current node and every other node are as before.
\<close>

theorem process_action_failures:
  "(parse_actions content = [] \<longrightarrow>
      process_action x content a = (Inl (FormatError (format_error_message x)), a)) \<and>
   (fst (process_action x content a) = Inl (ExecutionTimeoutError msg) \<longrightarrow>
      (let am = action_manager a; a' = snd (process_action x content a);
           am' = action_manager a'; t = next_ref am
       in temp_node am' = Some t \<and> observations (heap am' t) = [] \<and>
          thoughts (heap am' t) = parse_tag content ''thoughts'' \<and>
          action (heap am' t) = join ''\<newline>'' (parse_actions content) \<and>
          valid (heap am' t) = None \<and> parent (heap am' t) = None \<and>
          all_nodes am' = all_nodes am @ [t] \<and> next_ref am' = Suc t \<and>
          current am' = current am \<and>
          (heap am')(t := heap am t) = heap am \<and>
          n_operations a' = Suc (n_operations a)))"
proof (intro conjI impI)
  assume "parse_actions content = []"
  then show "process_action x content a = (Inl (FormatError (format_error_message x)), a)"
    by (simp add: process_action_def Let_def)
next
  assume raised: "fst (process_action x content a) = Inl (ExecutionTimeoutError msg)"
  have ne: "parse_actions content \<noteq> []"
  proof
    assume "parse_actions content = []"
    then have "process_action x content a = (Inl (FormatError (format_error_message x)), a)"
      by (simp add: process_action_def Let_def)
    with raised show False by simp
  qed
  let ?t = "next_ref (action_manager a)"
  from process_action_raised [OF ne raised]
  have ann: "annotates ?t
       ((action_manager a)
                 \<lparr>heap := (heap (action_manager a))(?t :=
                     new_node (parse_tag content ''thoughts'') (join ''\<newline>'' (parse_actions content))
                       (if lower (strip (parse_tag content ''property'')) = ''exploitative''
                        then Some EXPLOITATIVE
                        else if lower (strip (parse_tag content ''property'')) = ''exploratory''
                        then Some EXPLORATORY else None)),
                  temp_node := Some ?t,
                  all_nodes := all_nodes (action_manager a) @ [?t],
                  next_ref := Suc ?t\<rparr>)
       (action_manager (snd (process_action x content a)))"
    and n: "n_operations (snd (process_action x content a)) = Suc (n_operations a)"
    by (simp_all add: touches_only_def)
  have others: "(heap (action_manager (snd (process_action x content a))))(?t := heap (action_manager a) ?t)
      = heap (action_manager a)"
  proof
    fix n
    show "((heap (action_manager (snd (process_action x content a))))(?t := heap (action_manager a) ?t)) n
      = heap (action_manager a) n"
      using annotates_fields(7) [OF ann, of n] by (cases "n = ?t") simp_all
  qed
  show "let am = action_manager a; a' = snd (process_action x content a);
           am' = action_manager a'; t = next_ref am
       in temp_node am' = Some t \<and> observations (heap am' t) = [] \<and>
          thoughts (heap am' t) = parse_tag content ''thoughts'' \<and>
          action (heap am' t) = join ''\<newline>'' (parse_actions content) \<and>
          valid (heap am' t) = None \<and> parent (heap am' t) = None \<and>
          all_nodes am' = all_nodes am @ [t] \<and> next_ref am' = Suc t \<and>
          current am' = current am \<and>
          (heap am')(t := heap am t) = heap am \<and>
          n_operations a' = Suc (n_operations a)"
    unfolding Let_def
    using annotates_fields(1,2,4,5,8,9,11,13,14) [OF ann] n others
    by (simp add: new_node_def)
qed

text \<open>
  A run of \<open>_process_action\<close> on a response with two actions, in a sandbox where the first
  command prints \<open>ok\<close> and the second times out.
\<close>

lemma two_actions_parsed:
  "parse_actions ''<action>ls</action><action>sleep 100</action>'' = [''ls'', ''sleep 100'']"
proof -
  have t1: "tag_body ''action'' ''<action>ls</action><action>sleep 100</action>''
              = Some (''ls'', ''<action>sleep 100</action>'')"
    by (simp add: tag_body_def)
  have t2: "tag_body ''action'' ''<action>sleep 100</action>'' = Some (''sleep 100'', [])"
    by (simp add: tag_body_def)
  have t3: "tag_body ''action'' [] = None"
    by (simp add: tag_body_def)
  have b: "all_tag_bodies ''action'' ''<action>ls</action><action>sleep 100</action>''
             = [''ls'', ''sleep 100'']"
    by (subst all_tag_bodies.simps, simp only: t1 option.case prod.case,
        subst all_tag_bodies.simps, simp only: t2 option.case prod.case,
        subst all_tag_bodies.simps, simp only: t3 option.case)
  have s1: "strip_backticks ''ls'' = ''ls''"
    by (simp add: strip_backticks_def strip_def lstrip_def rstrip_def is_space_def
        starts_with_def ends_with_def char_of_eq_iff Let_def)
  have s2: "strip_backticks ''sleep 100'' = ''sleep 100''"
    by (simp add: strip_backticks_def strip_def lstrip_def rstrip_def is_space_def
        starts_with_def ends_with_def char_of_eq_iff Let_def)
  show ?thesis unfolding parse_actions_def b by (simp add: s1 s2)
qed

lemma ls_not_builtin: "run_builtin_tool x ''ls'' a = (Inr None, a)"
  by (simp add: run_builtin_tool_def strip_def lstrip_def rstrip_def is_space_def
        starts_with_def char_of_eq_iff Let_def)

lemma sleep_not_builtin: "run_builtin_tool x ''sleep 100'' a = (Inr None, a)"
  by (simp add: run_builtin_tool_def strip_def lstrip_def rstrip_def is_space_def
        starts_with_def char_of_eq_iff Let_def)

lemma ok_not_submission: "check_submission ''ok'' = Inr ()"
  by (simp add: check_submission_def lstrip_def strip_def rstrip_def is_space_def is_linebreak_def
      char_of_eq_iff Let_def)


lemma ok_no_tool_response: "process_tool_response slow_externals (''ok'', 0) a = (Inr (''ok'', 0), a)"
proof -
  have "tag_body ''tool-response'' ''ok'' = None" by (simp add: tag_body_def)
  then have "all_tag_bodies ''tool-response'' ''ok'' = []"
    by (subst all_tag_bodies.simps) simp
  then have "from_string slow_externals ''ok'' = Inr []"
    by (simp add: from_string_def slow_externals_def quiet_externals_def)
  then show ?thesis
    by (simp add: process_tool_response_def strip_def lstrip_def rstrip_def is_space_def
        char_of_eq_iff)
qed

lemma ls_completes: "execute_command slow_externals ''ls'' a = (Inr (''ok'', 0), a)"
  by (simp add: execute_command_def ls_not_builtin then_do_def run_env_def slow_externals_def
      quiet_externals_def ok_not_submission)

lemma sleep_times_out:
  "execute_command slow_externals ''sleep 100'' a
     = (Inl (ExecutionTimeoutError ''The command timed out: partial''), a)"
  by (simp add: execute_command_def sleep_not_builtin then_do_def run_env_def slow_externals_def
      quiet_externals_def)

lemma two_actions_raise:
  "execute_actions slow_externals [''ls'', ''sleep 100''] a
     = (Inl (ExecutionTimeoutError ''The command timed out: partial''), a)"
  by (simp add: execute_actions_def ls_completes sleep_times_out ok_no_tool_response then_do_def)

lemma two_actions_process:
  "process_action slow_externals ''<action>ls</action><action>sleep 100</action>'' fresh_agent
      = (Inl (ExecutionTimeoutError ''The command timed out: partial''),
         fresh_agent\<lparr>action_manager := (init 3)
            \<lparr>heap := (heap (init 3))(1 := new_node [] ''ls\<newline>sleep 100'' None),
             temp_node := Some 1, all_nodes := [1], next_ref := 2\<rparr>,
           n_operations := 1\<rparr>)"
  by (simp add: process_action_def two_actions_parsed Let_def create_temp_node_def
        two_actions_raise then_do_def fresh_agent_def init_def parse_tag_def tag_body_def
        strip_def lstrip_def rstrip_def lower_def)

text \<open>
  Claim C2, as stated, fails: in that run \<open>ExecutionTimeoutError\<close> is raised, the manager
  is not the one before the call, since node 1 is pending and registered, and node 1 has no
  observation at all: neither the timeout nor the output of the first command, which had
  completed, was recorded on it.
\<close>

theorem timeout_leaves_pending_node_without_observations:
  "fst (process_action slow_externals ''<action>ls</action><action>sleep 100</action>'' fresh_agent)
     = Inl (ExecutionTimeoutError ''The command timed out: partial'') \<and>
   action_manager (snd (process_action slow_externals
       ''<action>ls</action><action>sleep 100</action>'' fresh_agent)) \<noteq> action_manager fresh_agent \<and>
   temp_node (action_manager (snd (process_action slow_externals
       ''<action>ls</action><action>sleep 100</action>'' fresh_agent))) = Some 1 \<and>
   all_nodes (action_manager (snd (process_action slow_externals
       ''<action>ls</action><action>sleep 100</action>'' fresh_agent))) = [1] \<and>
   observations (heap (action_manager (snd (process_action slow_externals
       ''<action>ls</action><action>sleep 100</action>'' fresh_agent))) 1) = []"
  unfolding two_actions_process by (simp add: fresh_agent_def init_def new_node_def)

text \<open>
  Claim C2, witness: a response without an action leaves \<open>fresh_agent\<close> unchanged; the
  response whose second action times out leaves node 1 pending with no verdict, the
  allocator advanced, the current node still the sentinel and one operation counted.
\<close>

theorem process_action_failures_witness:
  "parse_actions ''I am thinking'' = [] \<and>
   process_action slow_externals ''I am thinking'' fresh_agent
     = (Inl (FormatError ''Please provide an action.''), fresh_agent) \<and>
   fst (process_action slow_externals ''<action>ls</action><action>sleep 100</action>'' fresh_agent)
     = Inl (ExecutionTimeoutError ''The command timed out: partial'') \<and>
   valid (heap (action_manager (snd (process_action slow_externals
       ''<action>ls</action><action>sleep 100</action>'' fresh_agent))) 1) = None \<and>
   next_ref (action_manager (snd (process_action slow_externals
       ''<action>ls</action><action>sleep 100</action>'' fresh_agent))) = 2 \<and>
   current (action_manager (snd (process_action slow_externals
       ''<action>ls</action><action>sleep 100</action>'' fresh_agent))) = 0 \<and>
   n_operations (snd (process_action slow_externals
       ''<action>ls</action><action>sleep 100</action>'' fresh_agent)) = 1"
proof -
  have "tag_body ''action'' ''I am thinking'' = None" by (simp add: tag_body_def)
  then have "all_tag_bodies ''action'' ''I am thinking'' = []"
    by (subst all_tag_bodies.simps) simp
  then have n: "parse_actions ''I am thinking'' = []" by (simp add: parse_actions_def)
  have r: "fst (process_action slow_externals
                  ''<action>ls</action><action>sleep 100</action>'' fresh_agent)
             = Inl (ExecutionTimeoutError ''The command timed out: partial'')"
    by (simp add: two_actions_process)
  have s: "next_ref (action_manager fresh_agent) = 1" "current (action_manager fresh_agent) = 0"
    "n_operations fresh_agent = 0" "format_error_message slow_externals = ''Please provide an action.''"
    by (simp_all add: fresh_agent_def init_def slow_externals_def quiet_externals_def)
  from process_action_failures [of "''I am thinking''" slow_externals fresh_agent] n s
  have f: "process_action slow_externals ''I am thinking'' fresh_agent
     = (Inl (FormatError ''Please provide an action.''), fresh_agent)"
    by simp
  from process_action_failures [of "''<action>ls</action><action>sleep 100</action>''"
         slow_externals fresh_agent "''The command timed out: partial''"] r s
  have t: "valid (heap (action_manager (snd (process_action slow_externals
       ''<action>ls</action><action>sleep 100</action>'' fresh_agent))) 1) = None \<and>
   next_ref (action_manager (snd (process_action slow_externals
       ''<action>ls</action><action>sleep 100</action>'' fresh_agent))) = 2 \<and>
   current (action_manager (snd (process_action slow_externals
       ''<action>ls</action><action>sleep 100</action>'' fresh_agent))) = 0 \<and>
   n_operations (snd (process_action slow_externals
       ''<action>ls</action><action>sleep 100</action>'' fresh_agent)) = 1"
    by (simp add: Let_def)
  from n f r t show ?thesis by simp
qed

end
